theory Spec2Isabelle
  imports Main
begin

section \<open>Data model\<close>

text \<open>
  The dict that \<open>extract_product_details\<close> returns, with its six keys, every value a
  string.
\<close>

record product_details =
  product_name :: string
  category :: string
  price_median :: string
  price_low :: string
  price_high :: string
  description :: string

text \<open>
  The same dict after the worker's \<open>product_data['url'] = product_url\<close>: the record
  that goes on \<open>data_to_write_queue\<close>.
\<close>

record product_data = product_details +
  url :: string

text \<open>
  A discovered product, as \<open>_get_product_links_from_category_page\<close> builds it: the dict
  with the keys \<open>name_on_listing\<close>, \<open>url\<close> and \<open>category_on_listing\<close>. From here
  on \<open>url\<close> alone is the url of a discovered product and \<open>product_data.url\<close> the url
  of a record.
\<close>

record product_info =
  name_on_listing :: string
  url :: string
  category_on_listing :: string

section \<open>Python containers\<close>

text \<open>
  A Python dict keeps its keys in insertion order. \<open>d[k] = v\<close> replaces the value in
  place when the key is present and appends the pair otherwise, so the dict is an
  association list with that update.
\<close>

fun dict_setitem :: "'k \<Rightarrow> 'v \<Rightarrow> ('k \<times> 'v) list \<Rightarrow> ('k \<times> 'v) list" where
  "dict_setitem k v [] = [(k, v)]"
| "dict_setitem k v ((k', v') # d) =
     (if k' = k then (k', v) # d else (k', v') # dict_setitem k v d)"

definition dict_values :: "('k \<times> 'v) list \<Rightarrow> 'v list" where
  "dict_values d = map snd d"

text \<open>
  The slice \<open>xs[:n]\<close>: the first \<open>n\<close> elements, and for a negative \<open>n\<close> all
  but the last \<open>-n\<close>.
\<close>

definition py_slice_to :: "int \<Rightarrow> 'a list \<Rightarrow> 'a list" where
  "py_slice_to n xs =
     (if 0 \<le> n then take (nat n) xs else take (length xs - nat (- n)) xs)"

section \<open>Deduplication and the test-mode limit\<close>

text \<open>
  \<open>{p['url']: p for p in all_products_from_categories}\<close>: the comprehension stores
  each product under its url, in the order of the list.
\<close>

definition dedup_dict :: "product_info list \<Rightarrow> (string \<times> product_info) list" where
  "dedup_dict ps = fold (\<lambda>p d. dict_setitem (url p) p d) ps []"

definition unique_products_to_process :: "product_info list \<Rightarrow> product_info list" where
  "unique_products_to_process ps = dict_values (dedup_dict ps)"

text \<open>
  The products that \<open>run_scraping\<close> puts on \<open>product_url_queue\<close>, in the order of the
  puts: the slice of the values in test mode, all the values otherwise.
\<close>

definition products_to_queue :: "bool \<Rightarrow> int \<Rightarrow> product_info list \<Rightarrow> product_info list" where
  "products_to_queue mode limit ps =
     (if mode then py_slice_to limit (unique_products_to_process ps)
      else unique_products_to_process ps)"

text \<open>
  The order of first occurrence, in the words of the specification: walking the list,
  a value is kept where it is seen for the first time.
\<close>

definition first_occurrences :: "'a list \<Rightarrow> 'a list" where
  "first_occurrences xs = fold (\<lambda>x acc. if x \<in> set acc then acc else acc @ [x]) xs []"

text \<open>
  The scenario of the specification: category \<open>devops\<close> lists product a, category
  \<open>it-infrastructure\<close> lists product a again and product b.
\<close>

definition scenario_products :: "product_info list" where
  "scenario_products =
     [\<lparr>name_on_listing = ''A'', url = ''https://example.test/marketplace/a'',
        category_on_listing = ''devops''\<rparr>,
      \<lparr>name_on_listing = ''A-dup'', url = ''https://example.test/marketplace/a'',
        category_on_listing = ''it-infrastructure''\<rparr>,
      \<lparr>name_on_listing = ''B'', url = ''https://example.test/marketplace/b'',
        category_on_listing = ''it-infrastructure''\<rparr>]"

section \<open>Exceptions\<close>

text \<open>
  The exception classes the program handles or raises, all of them subclasses of
  \<open>Exception\<close>. \<open>RequestException\<close> stands for the class and its subclasses
  (\<open>HTTPError\<close>, \<open>ConnectionError\<close>, \<open>Timeout\<close>), \<open>Psycopg2Error\<close> for
  \<open>psycopg2.Error\<close> and its subclasses, \<open>Empty\<close> for \<open>queue.Empty\<close>. A result of
  type \<open>py_exception + 'a\<close> is \<open>Inl e\<close> when the call raises \<open>e\<close>.
\<close>

datatype py_exception =
    Empty
  | RequestException
  | XMLSyntaxError
  | Psycopg2Error
  | ValueError
  | IndexError
  | UnboundLocalError
  | OverflowError
  | OtherException

definition ebind :: "py_exception + 'a \<Rightarrow> ('a \<Rightarrow> py_exception + 'b) \<Rightarrow> py_exception + 'b" where
  "ebind m f = (case m of Inl e \<Rightarrow> Inl e | Inr x \<Rightarrow> f x)"

section \<open>Python strings\<close>

text \<open>
  Strings are lists of characters with code points below 256. \<open>py_isspace\<close> is the
  whitespace that \<open>str.strip()\<close> removes in that range, \<open>py_lower\<close> is
  \<open>str.lower()\<close> there.
\<close>

definition py_isspace :: "char \<Rightarrow> bool" where
  "py_isspace c = ((of_char c :: nat) \<in> set [9, 10, 11, 12, 13, 28, 29, 30, 31, 32, 133, 160])"

definition py_strip :: "string \<Rightarrow> string" where
  "py_strip s = rev (dropWhile py_isspace (rev (dropWhile py_isspace s)))"

definition py_lower_char :: "char \<Rightarrow> char" where
  "py_lower_char c =
     (let n = (of_char c :: nat) in
      if (65 \<le> n \<and> n \<le> 90) \<or> (192 \<le> n \<and> n \<le> 222 \<and> n \<noteq> 215)
      then char_of (n + 32) else c)"

definition py_lower :: "string \<Rightarrow> string" where
  "py_lower s = map py_lower_char s"

definition py_startswith :: "string \<Rightarrow> string \<Rightarrow> bool" where
  "py_startswith s p = (take (length p) s = p)"

text \<open>\<open>py_in sub s\<close> is the substring test \<open>sub in s\<close>.\<close>

fun py_in :: "string \<Rightarrow> string \<Rightarrow> bool" where
  "py_in sub [] = (sub = [])"
| "py_in sub (c # s) = (py_startswith (c # s) sub \<or> py_in sub s)"

fun py_split :: "char \<Rightarrow> string \<Rightarrow> string list" where
  "py_split sep [] = [[]]"
| "py_split sep (c # s) =
     (if c = sep then [] # py_split sep s
      else (case py_split sep s of [] \<Rightarrow> [[c]] | w # ws \<Rightarrow> (c # w) # ws))"

fun py_join :: "string \<Rightarrow> string list \<Rightarrow> string" where
  "py_join sep [] = []"
| "py_join sep [x] = x"
| "py_join sep (x # y # ys) = x @ sep @ py_join sep (y # ys)"

text \<open>\<open>xs[0]\<close> raises \<open>IndexError\<close> on an empty list.\<close>

definition py_first :: "'a list \<Rightarrow> py_exception + 'a" where
  "py_first xs = (case xs of [] \<Rightarrow> Inl IndexError | x # _ \<Rightarrow> Inr x)"

section \<open>Parsed documents\<close>

text \<open>
  The program reads a parsed page only through a fixed set of XPath queries. A document
  is the record of their results, each field named after the variable that receives the
  result in the source. Text nodes and \<open>text_content()\<close> are strings.
\<close>

record product_link_elem =
  href :: string
  name_element :: "string list"

record range_container =
  low_price_element :: "string list"
  high_price_element :: "string list"

record document =
  buttons :: "string list list"
  product_link_elements :: "product_link_elem list"
  product_name_detail_element :: "string list"
  product_description_elements :: "string list"
  median_price_span :: "string list"
  price_range_container :: "range_container list"
  category_detail_element :: "string list"

section \<open>ProductExtractor\<close>

definition extract_name :: "document \<Rightarrow> product_details \<Rightarrow> py_exception + product_details" where
  "extract_name product_tree d =
     (if product_name_detail_element product_tree \<noteq> []
      then ebind (py_first (product_name_detail_element product_tree))
             (\<lambda>t. Inr (d\<lparr>product_name := py_strip t\<rparr>))
      else Inr d)"

text \<open>
  The loop over the description elements keeps the stripped texts longer than 20
  characters that start neither with "what is" nor with "how it works", whatever the case.
\<close>

definition description_filter :: "string \<Rightarrow> bool" where
  "description_filter text =
     (length text > 20 \<and> \<not> py_startswith (py_lower text) ''what is''
      \<and> \<not> py_startswith (py_lower text) ''how it works'')"

definition extract_description :: "document \<Rightarrow> product_details \<Rightarrow> py_exception + product_details" where
  "extract_description product_tree d =
     (let extracted_descriptions =
            filter description_filter (map py_strip (product_description_elements product_tree))
      in if extracted_descriptions \<noteq> []
         then Inr (d\<lparr>description := py_join [CHR 0x0A] extracted_descriptions\<rparr>)
         else Inr d)"

definition extract_median :: "document \<Rightarrow> product_details \<Rightarrow> py_exception + product_details" where
  "extract_median product_tree d =
     (if median_price_span product_tree \<noteq> []
      then ebind (py_first (median_price_span product_tree))
             (\<lambda>t. Inr (d\<lparr>price_median := py_strip t\<rparr>))
      else Inr d)"

definition extract_low :: "range_container \<Rightarrow> product_details \<Rightarrow> py_exception + product_details" where
  "extract_low c d =
     (if low_price_element c \<noteq> []
      then ebind (py_first (low_price_element c)) (\<lambda>t. Inr (d\<lparr>price_low := py_strip t\<rparr>))
      else Inr d)"

definition extract_high :: "range_container \<Rightarrow> product_details \<Rightarrow> py_exception + product_details" where
  "extract_high c d =
     (if high_price_element c \<noteq> []
      then ebind (py_first (high_price_element c)) (\<lambda>t. Inr (d\<lparr>price_high := py_strip t\<rparr>))
      else Inr d)"

definition extract_range :: "document \<Rightarrow> product_details \<Rightarrow> py_exception + product_details" where
  "extract_range product_tree d =
     (if price_range_container product_tree \<noteq> []
      then ebind (py_first (price_range_container product_tree))
             (\<lambda>c. ebind (extract_low c d)
                (\<lambda>d1. ebind (py_first (price_range_container product_tree))
                   (\<lambda>c'. extract_high c' d1)))
      else Inr d)"

definition extract_category :: "document \<Rightarrow> product_details \<Rightarrow> py_exception + product_details" where
  "extract_category product_tree d =
     (if category_detail_element product_tree \<noteq> []
      then ebind (py_first (category_detail_element product_tree))
             (\<lambda>t. Inr (d\<lparr>category := py_strip t\<rparr>))
      else Inr d)"

text \<open>
  \<open>ProductExtractor.extract_product_details\<close>: the dict starts with the listing's name
  and category and the placeholders, then the five sections run in the order of the
  source.
\<close>

definition extract_product_details ::
  "document \<Rightarrow> string \<Rightarrow> string \<Rightarrow> py_exception + product_details" where
  "extract_product_details product_tree listing_product_name listing_category =
     ebind (extract_name product_tree
        \<lparr>product_name = listing_product_name,
         category = listing_category,
         price_median = ''Not specified'',
         price_low = ''Not specified'',
         price_high = ''Not specified'',
         description = ''No detailed description found.''\<rparr>)
       (\<lambda>d1. ebind (extract_description product_tree d1)
          (\<lambda>d2. ebind (extract_median product_tree d2)
             (\<lambda>d3. ebind (extract_range product_tree d3)
                (\<lambda>d4. extract_category product_tree d4))))"

text \<open>A detail page on which none of the queries finds anything, and one with content.\<close>

definition empty_document :: document where
  "empty_document =
     \<lparr>buttons = [], product_link_elements = [], product_name_detail_element = [],
      product_description_elements = [], median_price_span = [],
      price_range_container = [], category_detail_element = []\<rparr>"

definition sample_detail_page :: document where
  "sample_detail_page =
     \<lparr>buttons = [], product_link_elements = [],
      product_name_detail_element = ['' Product A ''],
      product_description_elements = [''What is this'', ''A long description of product A.''],
      median_price_span = [''$100''],
      price_range_container = [\<lparr>low_price_element = [''$50''], high_price_element = []\<rparr>],
      category_detail_element = []\<rparr>"

section \<open>WebScraper\<close>

text \<open>
  The scraper object together with the library calls \<open>fetch_page\<close> makes, which the
  repository does not define: \<open>time.sleep\<close>, \<open>requests.compat.urljoin\<close>,
  \<open>session.get\<close> and \<open>lxml.html.fromstring\<close>. Each is a parameter that either
  raises or returns.
\<close>

record response =
  status_code :: nat
  content :: string

record web_scraper =
  base_url :: string
  time_sleep :: "int \<Rightarrow> py_exception + unit"
  urljoin :: "string \<Rightarrow> string \<Rightarrow> py_exception + string"
  session_get :: "string \<Rightarrow> py_exception + response"
  html_fromstring :: "string \<Rightarrow> py_exception + document"

text \<open>
  What \<open>fetch_page\<close> does to the outside, in order: \<open>time.sleep(sleep_time)\<close> and
  \<open>session.get(full_url, headers=..., timeout=10)\<close>, with the timeout in seconds.
\<close>

datatype fetch_event = Sleep int | SessionGet string nat

text \<open>\<open>response.raise_for_status()\<close> raises \<open>HTTPError\<close> for a 4xx or 5xx status.\<close>

definition raise_for_status :: "response \<Rightarrow> py_exception + unit" where
  "raise_for_status r =
     (if 400 \<le> status_code r \<and> status_code r < 600 then Inl RequestException else Inr ())"

text \<open>
  \<open>full_url = requests.compat.urljoin(self.base_url, url) if url.startswith('/') else url\<close>
\<close>

definition resolve_url :: "web_scraper \<Rightarrow> string \<Rightarrow> py_exception + string" where
  "resolve_url ws u = (if py_startswith u ''/'' then urljoin ws (base_url ws) u else Inr u)"

text \<open>
  The three \<open>except\<close> clauses of \<open>fetch_page\<close>. Each logs a message that reads
  \<open>full_url\<close> and returns \<open>None\<close>; when the exception came from the assignment of
  \<open>full_url\<close> itself the variable is unbound and the handler raises.
\<close>

definition fetch_page_except :: "py_exception \<Rightarrow> string option \<Rightarrow> py_exception + document option" where
  "fetch_page_except e full_url =
     (if e = RequestException then
        (case full_url of None \<Rightarrow> Inl UnboundLocalError | Some _ \<Rightarrow> Inr None)
      else if e = XMLSyntaxError then
        (case full_url of None \<Rightarrow> Inl UnboundLocalError | Some _ \<Rightarrow> Inr None)
      else
        (case full_url of None \<Rightarrow> Inl UnboundLocalError | Some _ \<Rightarrow> Inr None))"

text \<open>
  The part of \<open>fetch_page\<close> inside \<open>try\<close>, after the events \<open>slept\<close> that came
  before it.
\<close>

definition fetch_page_try ::
  "web_scraper \<Rightarrow> string \<Rightarrow> fetch_event list \<Rightarrow>
     (py_exception + document option) \<times> fetch_event list" where
  "fetch_page_try ws u slept =
     (case resolve_url ws u of
        Inl e \<Rightarrow> (fetch_page_except e None, slept)
      | Inr full_url \<Rightarrow>
          (let requested = slept @ [SessionGet full_url 10] in
           case session_get ws full_url of
             Inl e \<Rightarrow> (fetch_page_except e (Some full_url), requested)
           | Inr response \<Rightarrow>
               (case raise_for_status response of
                  Inl e \<Rightarrow> (fetch_page_except e (Some full_url), requested)
                | Inr _ \<Rightarrow>
                    (case html_fromstring ws (content response) of
                       Inl e \<Rightarrow> (fetch_page_except e (Some full_url), requested)
                     | Inr tree \<Rightarrow> (Inr (Some tree), requested)))))"

text \<open>
  \<open>fetch_page\<close>. The call of \<open>time.sleep\<close> for a positive delay stands before the
  \<open>try\<close>: when it raises, the exception leaves \<open>fetch_page\<close> and no request is made.
\<close>

definition fetch_page ::
  "web_scraper \<Rightarrow> string \<Rightarrow> int \<Rightarrow> (py_exception + document option) \<times> fetch_event list" where
  "fetch_page ws u sleep_time =
     (if sleep_time > 0 then
        (case time_sleep ws sleep_time of
           Inl e \<Rightarrow> (Inl e, [Sleep sleep_time])
         | Inr _ \<Rightarrow> fetch_page_try ws u [Sleep sleep_time])
      else fetch_page_try ws u [])"

text \<open>
  A scraper for \<open>https://example.test\<close> to run the model on. Sleeping raises
  \<open>OverflowError\<close> for a number of seconds that does not fit into 64 bits as
  nanoseconds, as \<open>time.sleep\<close> of CPython does; joining keeps a url with a scheme,
  appends any other url to the base, and raises \<open>ValueError\<close> on an unclosed bracket,
  as \<open>urljoin\<close> does for an invalid IPv6 host; the site serves the pages in \<open>pages\<close>
  and answers 404 for any other url.
\<close>

definition example_sleep :: "int \<Rightarrow> py_exception + unit" where
  "example_sleep seconds =
     (if seconds * 1000000000 < 2 ^ 63 then Inr () else Inl OverflowError)"

definition example_urljoin :: "string \<Rightarrow> string \<Rightarrow> py_exception + string" where
  "example_urljoin base u =
     (if py_startswith u ''//['' then Inl ValueError
      else if py_startswith u ''http'' then Inr u
      else if py_startswith u ''/'' then Inr (base @ u)
      else Inr (base @ ''/'' @ u))"

definition example_scraper :: "(string \<times> document) list \<Rightarrow> web_scraper" where
  "example_scraper pages =
     \<lparr>base_url = ''https://example.test'',
      time_sleep = example_sleep,
      urljoin = example_urljoin,
      session_get = (\<lambda>u. if py_startswith u ''http''
                          then (case map_of pages u of
                                  Some _ \<Rightarrow> Inr \<lparr>status_code = 200, content = u\<rparr>
                                | None \<Rightarrow> Inr \<lparr>status_code = 404, content = []\<rparr>)
                          else Inl RequestException),
      html_fromstring = (\<lambda>c. case map_of pages c of
                                 Some d \<Rightarrow> Inr d
                               | None \<Rightarrow> Inl XMLSyntaxError)\<rparr>"

section \<open>Queues\<close>

text \<open>
  \<open>queue.Queue\<close> with its completion counting: the items in FIFO order and the number
  of items put and not yet marked done. \<open>get\<close> with a timeout raises \<open>Empty\<close> when it
  finds no item; \<open>task_done\<close> raises \<open>ValueError\<close> when called more often than \<open>put\<close>;
  \<open>join\<close> returns when the count is zero.
\<close>

record 'a py_queue =
  queue :: "'a list"
  unfinished_tasks :: nat

definition new_queue :: "'a py_queue" where
  "new_queue = \<lparr>queue = [], unfinished_tasks = 0\<rparr>"

definition put :: "'a \<Rightarrow> 'a py_queue \<Rightarrow> 'a py_queue" where
  "put x q = \<lparr>queue = queue q @ [x], unfinished_tasks = unfinished_tasks q + 1\<rparr>"

definition get :: "'a py_queue \<Rightarrow> py_exception + ('a \<times> 'a py_queue)" where
  "get q = (case queue q of [] \<Rightarrow> Inl Empty | x # rest \<Rightarrow> Inr (x, q\<lparr>queue := rest\<rparr>))"

definition task_done :: "'a py_queue \<Rightarrow> py_exception + 'a py_queue" where
  "task_done q =
     (if unfinished_tasks q = 0 then Inl ValueError
      else Inr (q\<lparr>unfinished_tasks := unfinished_tasks q - 1\<rparr>))"

definition join_returns :: "'a py_queue \<Rightarrow> bool" where
  "join_returns q = (unfinished_tasks q = 0)"

section \<open>DatabaseManager\<close>

text \<open>
  The manager holds a connection and a cursor, each possibly \<open>None\<close>. The calls it makes
  on them are recorded in order in \<open>db_log\<close>. The database itself is outside the
  repository: whether \<open>psycopg2.connect\<close> and \<open>cursor.execute\<close> raise is given by the
  environment and may depend on everything that happened before; \<open>commit\<close>,
  \<open>rollback\<close> and \<open>close\<close> are taken to return.
\<close>

record connection =
  closed :: bool

datatype db_event =
    Connected
  | TableCreated
  | Executed product_data
  | Committed
  | RolledBack
  | CursorClosed
  | ConnectionClosed

record database_manager =
  conn :: "connection option"
  cur :: bool
  db_log :: "db_event list"

record db_env =
  psycopg2_connect :: "database_manager \<Rightarrow> py_exception option"
  create_table_execute :: "database_manager \<Rightarrow> py_exception option"
  cursor_execute :: "database_manager \<Rightarrow> product_data \<Rightarrow> py_exception option"

definition new_database_manager :: database_manager where
  "new_database_manager = \<lparr>conn = None, cur = False, db_log = []\<rparr>"

definition conn_unusable :: "database_manager \<Rightarrow> bool" where
  "conn_unusable dbm = (case conn dbm of None \<Rightarrow> True | Some c \<Rightarrow> closed c)"

text \<open>
  \<open>_connect\<close>: connects unless a live connection exists; on \<open>psycopg2.Error\<close> it resets
  both attributes and re-raises.
\<close>

definition db_connect :: "'e db_env_scheme \<Rightarrow> database_manager \<Rightarrow> py_exception option \<times> database_manager" where
  "db_connect env dbm =
     (if conn_unusable dbm then
        (case psycopg2_connect env dbm of
           None \<Rightarrow> (None, dbm\<lparr>conn := Some \<lparr>closed = False\<rparr>, cur := True,
                               db_log := db_log dbm @ [Connected]\<rparr>)
         | Some e \<Rightarrow>
             (if e = Psycopg2Error then (Some e, dbm\<lparr>conn := None, cur := False\<rparr>)
              else (Some e, dbm)))
      else (None, dbm))"

definition db_disconnect :: "database_manager \<Rightarrow> database_manager" where
  "db_disconnect dbm =
     (let d1 = (if cur dbm then dbm\<lparr>cur := False, db_log := db_log dbm @ [CursorClosed]\<rparr>
                else dbm)
      in if conn d1 \<noteq> None then d1\<lparr>conn := None, db_log := db_log d1 @ [ConnectionClosed]\<rparr>
         else d1)"

text \<open>
  \<open>create_products_table\<close>: connect, run the DDL, commit; any exception is logged and
  re-raised; the \<open>finally\<close> clause disconnects.
\<close>

definition create_products_table ::
  "'e db_env_scheme \<Rightarrow> database_manager \<Rightarrow> py_exception option \<times> database_manager" where
  "create_products_table env dbm =
     (case db_connect env dbm of
        (Some e, d1) \<Rightarrow> (Some e, db_disconnect d1)
      | (None, d1) \<Rightarrow>
          (case create_table_execute env d1 of
             Some e \<Rightarrow> (Some e, db_disconnect d1)
           | None \<Rightarrow>
               (None, db_disconnect (d1\<lparr>db_log := db_log d1 @ [TableCreated, Committed]\<rparr>))))"

text \<open>
  \<open>insert_product_data\<close>: raises \<open>InterfaceError\<close>, a \<open>psycopg2.Error\<close>, without an open
  connection and cursor; otherwise executes the upsert and re-raises what it raises. It
  neither commits nor rolls back.
\<close>

definition insert_product_data ::
  "'e db_env_scheme \<Rightarrow> product_data \<Rightarrow> database_manager \<Rightarrow> py_exception option \<times> database_manager" where
  "insert_product_data env r dbm =
     (if conn dbm = None \<or> \<not> cur dbm \<or> conn_unusable dbm then (Some Psycopg2Error, dbm)
      else (case cursor_execute env dbm r of
              Some e \<Rightarrow> (Some e, dbm)
            | None \<Rightarrow> (None, dbm\<lparr>db_log := db_log dbm @ [Executed r]\<rparr>)))"

text \<open>\<open>__enter__\<close> and \<open>__exit__\<close>, the latter with the exception that left the block.\<close>

definition db_enter :: "'e db_env_scheme \<Rightarrow> database_manager \<Rightarrow> py_exception option \<times> database_manager" where
  "db_enter env dbm = db_connect env dbm"

definition db_exit :: "py_exception option \<Rightarrow> database_manager \<Rightarrow> database_manager" where
  "db_exit exc dbm =
     db_disconnect
       (if exc \<noteq> None then
          (if conn dbm \<noteq> None then dbm\<lparr>db_log := db_log dbm @ [RolledBack]\<rparr> else dbm)
        else if conn dbm \<noteq> None then dbm\<lparr>db_log := db_log dbm @ [Committed]\<rparr>
        else dbm)"

section \<open>The crawl pipeline\<close>

text \<open>
  Everything the pipeline is handed from outside. The scraper and the extractor are the
  injected dependencies, each call either raising or returning; \<open>fetch_page\<close> returns
  \<open>None\<close> for a failed fetch. The other fields are the values of \<open>config\<close> that
  \<open>ScrapingOrchestrator.__init__\<close> reads, \<open>SCRAPER_THREAD_COUNT\<close>, and \<open>urljoin\<close> of
  \<open>urllib.parse\<close>.
\<close>

record env = db_env +
  scraper_fetch_page :: "string \<Rightarrow> int \<Rightarrow> py_exception + document option"
  extractor_extract :: "document \<Rightarrow> string \<Rightarrow> string \<Rightarrow> py_exception + product_details"
  urllib_urljoin :: "string \<Rightarrow> string \<Rightarrow> py_exception + string"
  config_base_url :: string
  needed_categories :: "string list"
  test_mode :: bool
  test_product_limit :: int
  sleep_between_category_pages :: int
  sleep_between_product_pages :: int
  scraper_thread_count :: int

text \<open>
  What the threads do to the shared queues and to the outside, in the order in which it
  happens. Worker ids start at 1 as in the source. Of the log calls of \<open>orchestrator.py\<close>
  and \<open>workers.py\<close> the warnings, errors and criticals are recorded; what the scraper
  and the database manager log themselves is not.
\<close>

datatype event =
    FetchPage string int
  | PutProduct "product_info option"
  | StartWriter
  | StartWorker nat
  | ProductDone nat "product_info option"
  | PutRecord nat product_data
  | PutRecordSentinel
  | RecordDone "product_data option"
  | WriterJoin nat bool
  | CloseSession
  | TimingLog
  | LogWarning
  | LogError
  | LogCritical

text \<open>
  A worker thread is about to call \<open>get\<close> (\<open>Idle\<close>), holds a product it has popped and
  not yet marked done (\<open>Holding\<close>), or has left its loop: on the sentinel, on the
  \<open>Empty\<close> of \<open>get\<close>, on an \<open>Empty\<close> raised while it held a product, or with an
  exception raised out of the function.
\<close>

datatype exit_reason = BySentinel | ByTimeout | ByEmpty product_info | ByError

datatype worker_state = Idle | Holding product_info | Exited exit_reason

datatype writer_state = NotStarted | Connecting | Writing | WriterExited

datatype orchestrator_state =
    Joining
  | Signalling nat
  | WaitingWorkers
  | JoiningWriter
  | Teardown
  | Finished

datatype loop_signal = Continue | Break | Raise py_exception

record pipeline =
  product_url_queue :: "product_info option py_queue"
  data_to_write_queue :: "product_data option py_queue"
  workers :: "worker_state list"
  writer :: writer_state
  db_manager :: database_manager
  orchestrator :: orchestrator_state
  events :: "event list"

definition emit :: "event list \<Rightarrow> pipeline \<Rightarrow> pipeline" where
  "emit es s = s\<lparr>events := events s @ es\<rparr>"

subsection \<open>scrape_product_worker\<close>

definition product_task_done ::
  "nat \<Rightarrow> product_info option \<Rightarrow> pipeline \<Rightarrow> py_exception option \<times> pipeline" where
  "product_task_done i item s =
     (case task_done (product_url_queue s) of
        Inl e \<Rightarrow> (Some e, s)
      | Inr q \<Rightarrow> (None, emit [ProductDone (Suc i) item] (s\<lparr>product_url_queue := q\<rparr>)))"

definition put_record :: "nat \<Rightarrow> product_data \<Rightarrow> pipeline \<Rightarrow> pipeline" where
  "put_record i r s =
     emit [PutRecord (Suc i) r] (s\<lparr>data_to_write_queue := put (Some r) (data_to_write_queue s)\<rparr>)"

text \<open>
  The body of the \<open>try\<close> for a popped product: fetch; on a tree extract, attach the
  url and put the record; on \<open>None\<close> warn; then \<open>task_done\<close>. The result is the
  exception that leaves the block, if any.
\<close>

definition worker_try :: "env \<Rightarrow> nat \<Rightarrow> product_info \<Rightarrow> pipeline \<Rightarrow> py_exception option \<times> pipeline" where
  "worker_try env i p s =
     (case scraper_fetch_page env (url p) (sleep_between_product_pages env) of
        Inl e \<Rightarrow> (Some e, s)
      | Inr None \<Rightarrow> product_task_done i (Some p) (emit [LogWarning] s)
      | Inr (Some product_detail_tree) \<Rightarrow>
          (case extractor_extract env product_detail_tree (name_on_listing p)
                  (category_on_listing p) of
             Inl e \<Rightarrow> (Some e, s)
           | Inr details \<Rightarrow>
               product_task_done i (Some p)
                 (put_record i (product_details.extend details (product_data.fields (url p))) s)))"

text \<open>
  The two \<open>except\<close> clauses: \<open>queue.Empty\<close> breaks the loop; any other exception is
  logged and followed by \<open>task_done\<close>, after which the loop continues, unless that call
  raises in its turn.
\<close>

definition worker_except ::
  "nat \<Rightarrow> product_info option \<Rightarrow> py_exception \<Rightarrow> pipeline \<Rightarrow> worker_state \<times> pipeline" where
  "worker_except i item e s =
     (if e = Empty then
        (Exited (case item of None \<Rightarrow> ByTimeout | Some p \<Rightarrow> ByEmpty p), s)
      else
        (case product_task_done i item (emit [LogError] s) of
           (None, s') \<Rightarrow> (Idle, s')
         | (Some e', s') \<Rightarrow> (Exited ByError, s')))"

text \<open>An idle worker calls \<open>get\<close>; the sentinel is marked done and ends the loop.\<close>

definition worker_get :: "nat \<Rightarrow> pipeline \<Rightarrow> worker_state \<times> pipeline" where
  "worker_get i s =
     (case get (product_url_queue s) of
        Inl e \<Rightarrow> worker_except i None e s
      | Inr (None, q) \<Rightarrow>
          (case product_task_done i None (s\<lparr>product_url_queue := q\<rparr>) of
             (None, s') \<Rightarrow> (Exited BySentinel, s')
           | (Some e, s') \<Rightarrow> worker_except i None e s')
      | Inr (Some p, q) \<Rightarrow> (Holding p, s\<lparr>product_url_queue := q\<rparr>))"

definition worker_process :: "env \<Rightarrow> nat \<Rightarrow> product_info \<Rightarrow> pipeline \<Rightarrow> worker_state \<times> pipeline" where
  "worker_process env i p s =
     (case worker_try env i p s of
        (None, s') \<Rightarrow> (Idle, s')
      | (Some e, s') \<Rightarrow> worker_except i (Some p) e s')"

definition set_worker :: "nat \<Rightarrow> worker_state \<times> pipeline \<Rightarrow> pipeline" where
  "set_worker i r = (snd r)\<lparr>workers := (workers (snd r))[i := fst r]\<rparr>"

definition worker_step :: "env \<Rightarrow> nat \<Rightarrow> pipeline \<Rightarrow> pipeline option" where
  "worker_step env i s =
     (if i < length (workers s) then
        (case workers s ! i of
           Idle \<Rightarrow> Some (set_worker i (worker_get i s))
         | Holding p \<Rightarrow> Some (set_worker i (worker_process env i p s))
         | Exited _ \<Rightarrow> None)
      else None)"

subsection \<open>database_writer_worker\<close>

definition record_task_done ::
  "product_data option \<Rightarrow> pipeline \<Rightarrow> py_exception option \<times> pipeline" where
  "record_task_done item s =
     (case task_done (data_to_write_queue s) of
        Inl e \<Rightarrow> (Some e, s)
      | Inr q \<Rightarrow> (None, emit [RecordDone item] (s\<lparr>data_to_write_queue := q\<rparr>)))"

text \<open>
  The insert of one record with its \<open>except Exception\<close>, which logs the error and goes
  on.
\<close>

definition writer_insert :: "env \<Rightarrow> product_data \<Rightarrow> pipeline \<Rightarrow> pipeline" where
  "writer_insert env r s =
     (case insert_product_data env r (db_manager s) of
        (None, d) \<Rightarrow> s\<lparr>db_manager := d\<rparr>
      | (Some e, d) \<Rightarrow> emit [LogError] (s\<lparr>db_manager := d\<rparr>))"

text \<open>
  One pass of the writer's loop: \<open>get\<close>; the sentinel is marked done and breaks; a
  record is inserted and marked done in the \<open>finally\<close> clause. \<open>queue.Empty\<close> breaks
  the loop, any other exception leaves it.
\<close>

definition writer_leave :: "py_exception \<Rightarrow> loop_signal" where
  "writer_leave e = (if e = Empty then Break else Raise e)"

definition writer_iteration :: "env \<Rightarrow> pipeline \<Rightarrow> loop_signal \<times> pipeline" where
  "writer_iteration env s =
     (case get (data_to_write_queue s) of
        Inl e \<Rightarrow> (writer_leave e, s)
      | Inr (None, q) \<Rightarrow>
          (case record_task_done None (s\<lparr>data_to_write_queue := q\<rparr>) of
             (None, s') \<Rightarrow> (Break, s')
           | (Some e, s') \<Rightarrow> (writer_leave e, s'))
      | Inr (Some r, q) \<Rightarrow>
          (case record_task_done (Some r) (writer_insert env r (s\<lparr>data_to_write_queue := q\<rparr>)) of
             (None, s') \<Rightarrow> (Continue, s')
           | (Some e, s') \<Rightarrow> (writer_leave e, s')))"

text \<open>
  The writer thread: entering the \<open>with\<close> block connects, and a failure to connect is
  logged as critical by the outer handler; the loop runs inside the block; leaving it
  calls \<open>__exit__\<close> with the exception, which is then logged as critical.
\<close>

definition writer_step :: "env \<Rightarrow> pipeline \<Rightarrow> pipeline option" where
  "writer_step env s =
     (case writer s of
        NotStarted \<Rightarrow> None
      | WriterExited \<Rightarrow> None
      | Connecting \<Rightarrow>
          (case db_enter env (db_manager s) of
             (None, d) \<Rightarrow> Some (s\<lparr>db_manager := d, writer := Writing\<rparr>)
           | (Some e, d) \<Rightarrow> Some (emit [LogCritical] (s\<lparr>db_manager := d, writer := WriterExited\<rparr>)))
      | Writing \<Rightarrow>
          (case writer_iteration env s of
             (Continue, s') \<Rightarrow> Some s'
           | (Break, s') \<Rightarrow>
               Some (s'\<lparr>db_manager := db_exit None (db_manager s'), writer := WriterExited\<rparr>)
           | (Raise e, s') \<Rightarrow>
               Some (emit [LogCritical]
                 (s'\<lparr>db_manager := db_exit (Some e) (db_manager s'), writer := WriterExited\<rparr>))))"

subsection \<open>The orchestrator after the threads are started\<close>

definition is_exited :: "worker_state \<Rightarrow> bool" where
  "is_exited w = (case w of Exited _ \<Rightarrow> True | _ \<Rightarrow> False)"

definition is_holding :: "worker_state \<Rightarrow> bool" where
  "is_holding w = (case w of Holding _ \<Rightarrow> True | _ \<Rightarrow> False)"

text \<open>
  \<open>product_url_queue.join()\<close> blocks until the count is zero; then one sentinel is put
  per worker thread; the executor waits for all worker threads; then the one sentinel for
  the writer is put; \<open>db_writer_thread.join(timeout=300)\<close> returns when the writer has
  exited or the timeout has passed, and an error is logged if the thread is still alive;
  the \<open>finally\<close> clause closes the session and logs the time.
\<close>

definition orchestrator_step :: "pipeline \<Rightarrow> pipeline option" where
  "orchestrator_step s =
     (case orchestrator s of
        Joining \<Rightarrow>
          (if join_returns (product_url_queue s)
           then Some (s\<lparr>orchestrator := Signalling (length (workers s))\<rparr>)
           else None)
      | Signalling 0 \<Rightarrow> Some (s\<lparr>orchestrator := WaitingWorkers\<rparr>)
      | Signalling (Suc k) \<Rightarrow>
          Some (emit [PutProduct None]
            (s\<lparr>product_url_queue := put None (product_url_queue s), orchestrator := Signalling k\<rparr>))
      | WaitingWorkers \<Rightarrow>
          (if list_all is_exited (workers s)
           then Some (emit [PutRecordSentinel]
             (s\<lparr>data_to_write_queue := put None (data_to_write_queue s),
                orchestrator := JoiningWriter\<rparr>))
           else None)
      | JoiningWriter \<Rightarrow>
          Some (emit (WriterJoin 300 (writer s \<noteq> WriterExited) #
                      (if writer s \<noteq> WriterExited then [LogError] else []))
            (s\<lparr>orchestrator := Teardown\<rparr>))
      | Teardown \<Rightarrow> Some (emit [CloseSession, TimingLog] (s\<lparr>orchestrator := Finished\<rparr>))
      | Finished \<Rightarrow> None)"

subsection \<open>Interleaved execution\<close>

text \<open>
  The threads run interleaved. A schedule names, step by step, the thread that moves; a
  thread that is blocked or has ended does not move when it is named. A worker or the
  writer that is named while its queue is empty has waited out the timeout of its
  \<open>get\<close>; the orchestrator named in \<open>JoiningWriter\<close> while the writer is alive has
  waited out the 300 seconds.
\<close>

datatype actor = Worker nat | Writer | Orchestrator

definition step :: "env \<Rightarrow> actor \<Rightarrow> pipeline \<Rightarrow> pipeline option" where
  "step env a s =
     (case a of
        Worker i \<Rightarrow> worker_step env i s
      | Writer \<Rightarrow> writer_step env s
      | Orchestrator \<Rightarrow> orchestrator_step s)"

definition exec :: "env \<Rightarrow> actor \<Rightarrow> pipeline \<Rightarrow> pipeline" where
  "exec env a s = (case step env a s of None \<Rightarrow> s | Some s' \<Rightarrow> s')"

definition run :: "env \<Rightarrow> actor list \<Rightarrow> pipeline \<Rightarrow> pipeline" where
  "run env sched s = fold (exec env) sched s"

section \<open>ScrapingOrchestrator before the threads are started\<close>

text \<open>
  \<open>_get_category_links\<close>: fetch the main page without delay; no tree gives no links;
  otherwise the first link of every button that has one, filtered to those that contain
  a needed category keyword. An exception of \<open>fetch_page\<close> passes through.
\<close>

definition first_hrefs :: "string list list \<Rightarrow> string list" where
  "first_hrefs bs =
     concat (map (\<lambda>link_elements. case link_elements of [] \<Rightarrow> [] | h # _ \<Rightarrow> [h]) bs)"

definition get_category_links :: "env \<Rightarrow> (py_exception + string list) \<times> event list" where
  "get_category_links env =
     (case scraper_fetch_page env (config_base_url env) 0 of
        Inl e \<Rightarrow> (Inl e, [FetchPage (config_base_url env) 0])
      | Inr None \<Rightarrow> (Inr [], [FetchPage (config_base_url env) 0, LogError])
      | Inr (Some main_page_tree) \<Rightarrow>
          (Inr (filter (\<lambda>link. list_ex (\<lambda>category_keyword. py_in category_keyword link)
                          (needed_categories env))
                  (first_hrefs (buttons main_page_tree))),
           [FetchPage (config_base_url env) 0]))"

text \<open>
  \<open>_get_product_links_from_category_page\<close>, for the link elements of one category page:
  an element with an empty href is skipped with a warning; the name is the stripped text
  of the first name span or "Unknown Product Name"; the url is joined to the base; the
  category is the last segment of the category url.
\<close>

fun product_links ::
  "env \<Rightarrow> string \<Rightarrow> product_link_elem list \<Rightarrow> (py_exception + product_info list) \<times> event list" where
  "product_links env slug [] = (Inr [], [])"
| "product_links env slug (e # es) =
     (if href e = [] then
        (case product_links env slug es of (r, ev) \<Rightarrow> (r, LogWarning # ev))
      else
        (case urllib_urljoin env (config_base_url env) (href e) of
           Inl x \<Rightarrow> (Inl x, [])
         | Inr full_product_url \<Rightarrow>
             (case product_links env slug es of
                (Inl x, ev) \<Rightarrow> (Inl x, ev)
              | (Inr ps, ev) \<Rightarrow>
                  (Inr (\<lparr>name_on_listing =
                           (case name_element e of
                              [] \<Rightarrow> ''Unknown Product Name''
                            | t # _ \<Rightarrow> py_strip t),
                         url = full_product_url,
                         category_on_listing = slug\<rparr> # ps), ev))))"

definition get_product_links_from_category_page ::
  "env \<Rightarrow> string \<Rightarrow> document \<Rightarrow> (py_exception + product_info list) \<times> event list" where
  "get_product_links_from_category_page env category_url page_tree =
     product_links env (last (py_split CHR ''/'' category_url)) (product_link_elements page_tree)"

text \<open>
  The loop over the category links: each page is fetched with the category delay; a
  failed page is skipped with a warning.
\<close>

fun scrape_category_pages ::
  "env \<Rightarrow> string list \<Rightarrow> (py_exception + product_info list) \<times> event list" where
  "scrape_category_pages env [] = (Inr [], [])"
| "scrape_category_pages env (link # links) =
     (case scraper_fetch_page env link (sleep_between_category_pages env) of
        Inl e \<Rightarrow> (Inl e, [FetchPage link (sleep_between_category_pages env)])
      | Inr None \<Rightarrow>
          (case scrape_category_pages env links of
             (r, ev) \<Rightarrow> (r, FetchPage link (sleep_between_category_pages env) # LogWarning # ev))
      | Inr (Some category_page_tree) \<Rightarrow>
          (case get_product_links_from_category_page env link category_page_tree of
             (Inl e, ev1) \<Rightarrow> (Inl e, FetchPage link (sleep_between_category_pages env) # ev1)
           | (Inr products_on_page, ev1) \<Rightarrow>
               (case scrape_category_pages env links of
                  (Inl e, ev2) \<Rightarrow>
                    (Inl e, FetchPage link (sleep_between_category_pages env) # ev1 @ ev2)
                | (Inr rest, ev2) \<Rightarrow>
                    (Inr (products_on_page @ rest),
                     FetchPage link (sleep_between_category_pages env) # ev1 @ ev2))))"

text \<open>
  The state in which \<open>run_scraping\<close> reaches its \<open>finally\<close> clause without having
  started a thread: both queues as created, no worker, the writer not started.
\<close>

definition aborted :: "database_manager \<Rightarrow> event list \<Rightarrow> pipeline" where
  "aborted d ev =
     \<lparr>product_url_queue = new_queue, data_to_write_queue = new_queue, workers = [],
      writer = NotStarted, db_manager = d, orchestrator = Teardown, events = ev\<rparr>"

text \<open>
  Populating the queue and starting the threads. An empty queue returns at once. The
  writer thread is started first; \<open>ThreadPoolExecutor\<close> raises \<open>ValueError\<close> for a
  thread count that is not positive, which the handler of \<open>run_scraping\<close> logs as
  critical; otherwise one worker is submitted per thread and the orchestrator calls
  \<open>join\<close>.
\<close>

definition start_threads :: "env \<Rightarrow> database_manager \<Rightarrow> event list \<Rightarrow> product_info list \<Rightarrow> pipeline" where
  "start_threads env d ev ps =
     (let q = fold (\<lambda>p. put (Some p)) ps new_queue;
          ev1 = ev @ map (\<lambda>p. PutProduct (Some p)) ps
      in if queue q = [] then
           \<lparr>product_url_queue = q, data_to_write_queue = new_queue, workers = [],
            writer = NotStarted, db_manager = d, orchestrator = Teardown,
            events = ev1 @ [LogWarning]\<rparr>
         else if scraper_thread_count env \<le> 0 then
           \<lparr>product_url_queue = q, data_to_write_queue = new_queue, workers = [],
            writer = Connecting, db_manager = d, orchestrator = Teardown,
            events = ev1 @ [StartWriter, LogCritical]\<rparr>
         else
           \<lparr>product_url_queue = q, data_to_write_queue = new_queue,
            workers = replicate (nat (scraper_thread_count env)) Idle,
            writer = Connecting, db_manager = d, orchestrator = Joining,
            events = ev1 @ StartWriter #
              map (\<lambda>i. StartWorker (Suc i)) [0 ..< nat (scraper_thread_count env)]\<rparr>)"

text \<open>
  \<open>run_scraping\<close> up to the point where the main thread either enters the \<open>finally\<close>
  clause or blocks in \<open>join\<close> with the threads running.
\<close>

definition run_scraping_start :: "env \<Rightarrow> pipeline" where
  "run_scraping_start env =
     (case create_products_table env new_database_manager of
        (Some e, d) \<Rightarrow> aborted d [LogCritical]
      | (None, d) \<Rightarrow>
          (case get_category_links env of
             (Inl e, ev) \<Rightarrow> aborted d (ev @ [LogCritical])
           | (Inr [], ev) \<Rightarrow> aborted d (ev @ [LogError])
           | (Inr (link # links), ev) \<Rightarrow>
               (case scrape_category_pages env (link # links) of
                  (Inl e, ev2) \<Rightarrow> aborted d (ev @ ev2 @ [LogCritical])
                | (Inr all_products_from_categories, ev2) \<Rightarrow>
                    start_threads env d (ev @ ev2)
                      (products_to_queue (test_mode env) (test_product_limit env)
                         all_products_from_categories))))"

text \<open>
  The scenario of the specification for the worker pool: \<open>n\<close> workers, the product queue
  loaded with the products followed by \<open>n\<close> sentinels, the orchestrator waiting for the
  workers.
\<close>

definition preloaded :: "product_info list \<Rightarrow> nat \<Rightarrow> pipeline" where
  "preloaded ps n =
     \<lparr>product_url_queue = fold put (map Some ps @ replicate n None) new_queue,
      data_to_write_queue = new_queue, workers = replicate n Idle, writer = Connecting,
      db_manager = new_database_manager, orchestrator = WaitingWorkers, events = []\<rparr>"

text \<open>
  An environment to run the model on: the site \<open>https://example.test\<close> of
  \<open>example_scraper\<close> with the given pages, fetched by \<open>fetch_page\<close> and extracted by
  \<open>extract_product_details\<close>, a database that accepts every statement except the insert
  of a record whose name is in \<open>rejected\<close>, and the default keywords.
\<close>

definition example_env :: "(string \<times> document) list \<Rightarrow> string list \<Rightarrow> int \<Rightarrow> env" where
  "example_env pages rejected n =
     \<lparr>psycopg2_connect = (\<lambda>_. None),
      create_table_execute = (\<lambda>_. None),
      cursor_execute = (\<lambda>_ r. if product_name r \<in> set rejected then Some Psycopg2Error else None),
      scraper_fetch_page = (\<lambda>u t. fst (fetch_page (example_scraper pages) u t)),
      extractor_extract = extract_product_details,
      urllib_urljoin = example_urljoin,
      config_base_url = ''https://example.test'',
      needed_categories = [''devops'', ''it-infrastructure'', ''data-analytics-and-management''],
      test_mode = False,
      test_product_limit = 0,
      sleep_between_category_pages = 1,
      sleep_between_product_pages = 1,
      scraper_thread_count = n\<rparr>"

definition example_site :: "(string \<times> document) list" where
  "example_site =
     [(''https://example.test'',
       empty_document\<lparr>buttons := [[''/categories/devops''], [''/categories/it-infrastructure''],
                                   [''/categories/security'']]\<rparr>),
      (''https://example.test/categories/devops'',
       empty_document\<lparr>product_link_elements :=
          [\<lparr>href = ''/marketplace/a'', name_element = [''A'']\<rparr>]\<rparr>),
      (''https://example.test/categories/it-infrastructure'',
       empty_document\<lparr>product_link_elements :=
          [\<lparr>href = ''/marketplace/a'', name_element = [''A-dup'']\<rparr>,
           \<lparr>href = ''/marketplace/b'', name_element = [''B'']\<rparr>]\<rparr>),
      (''https://example.test/marketplace/a'', sample_detail_page)]"

text \<open>
  A run of the example with two workers: both products are fetched, the page of the
  second is missing; the orchestrator passes \<open>join\<close>, puts the two sentinels, a worker
  takes one, the other worker had timed out before. The first schedule stops with the
  orchestrator in \<open>JoiningWriter\<close>, the second before the join returns.
\<close>

definition example_run_env :: env where
  "example_run_env = example_env example_site [] 2"



text \<open>
  Two moments of the example run: worker 1 holds product a, whose page exists, and, one
  step later, worker 2 holds product b, whose page is missing. In the second environment
  the extractor raises \<open>ValueError\<close> for every page.
\<close>

definition product_a :: product_info where
  "product_a = \<lparr>name_on_listing = ''A-dup'', url = ''https://example.test/marketplace/a'',
      category_on_listing = ''it-infrastructure''\<rparr>"

definition product_b :: product_info where
  "product_b = \<lparr>name_on_listing = ''B'', url = ''https://example.test/marketplace/b'',
      category_on_listing = ''it-infrastructure''\<rparr>"

definition record_a :: product_data where
  "record_a = \<lparr>product_name = ''Product A'', category = ''it-infrastructure'',
      price_median = ''$100'', price_low = ''$50'', price_high = ''Not specified'',
      description = ''A long description of product A.'',
      product_data.url = ''https://example.test/marketplace/a''\<rparr>"

definition failing_extractor_env :: env where
  "failing_extractor_env = example_run_env\<lparr>extractor_extract := (\<lambda>t n c. Inl ValueError)\<rparr>"

text \<open>A schedule that names each of the two workers eleven times and nobody else.\<close>

definition workers_only_schedule :: "actor list" where
  "workers_only_schedule = concat (replicate 11 [Worker 0, Worker 1])"

text \<open>
  The example with a site that serves no page at all: the fetch of the main page fails.
\<close>

definition offline_env :: env where
  "offline_env = example_env [] [] 2"




section \<open>Accounting\<close>

text \<open>
  The products a worker has taken from the queue and not marked done: the one it holds,
  or the one it held when an \<open>Empty\<close> made it leave the loop.
\<close>

fun in_hand :: "worker_state \<Rightarrow> product_info list" where
  "in_hand Idle = []"
| "in_hand (Holding p) = [p]"
| "in_hand (Exited (ByEmpty p)) = [p]"
| "in_hand (Exited _) = []"

definition taken :: "pipeline \<Rightarrow> product_info list" where
  "taken s = concat (map in_hand (workers s))"

text \<open>The items, without the sentinels, of the content of a queue.\<close>

definition items_of :: "'a option list \<Rightarrow> 'a list" where
  "items_of xs = concat (map (\<lambda>x. case x of None \<Rightarrow> [] | Some p \<Rightarrow> [p]) xs)"

text \<open>
  Read off the events: the products put on the product queue, the products marked done,
  and the values put on the record queue, each in order.
\<close>

fun enqueued_of :: "event \<Rightarrow> product_info list" where
  "enqueued_of (PutProduct (Some p)) = [p]"
| "enqueued_of _ = []"

fun done_of :: "event \<Rightarrow> product_info list" where
  "done_of (ProductDone i (Some p)) = [p]"
| "done_of _ = []"

fun record_put_of :: "event \<Rightarrow> product_data option list" where
  "record_put_of (PutRecord i r) = [Some r]"
| "record_put_of PutRecordSentinel = [None]"
| "record_put_of _ = []"

definition enqueued_products :: "event list \<Rightarrow> product_info list" where
  "enqueued_products ev = concat (map enqueued_of ev)"

definition done_products :: "event list \<Rightarrow> product_info list" where
  "done_products ev = concat (map done_of ev)"

definition record_puts :: "event list \<Rightarrow> product_data option list" where
  "record_puts ev = concat (map record_put_of ev)"

text \<open>
  The work that is left for the workers, as a number that every step of a worker makes
  smaller: two for every item in the queue and for every sentinel the orchestrator has
  still to put, two for a product held and one for a worker about to call \<open>get\<close>.
\<close>

fun worker_weight :: "worker_state \<Rightarrow> nat" where
  "worker_weight Idle = 1"
| "worker_weight (Holding p) = 2"
| "worker_weight (Exited r) = 0"

fun orchestrator_weight :: "orchestrator_state \<Rightarrow> nat \<Rightarrow> nat" where
  "orchestrator_weight Joining n = 2 * n"
| "orchestrator_weight (Signalling k) n = 2 * k"
| "orchestrator_weight _ n = 0"

definition remaining_work :: "pipeline \<Rightarrow> nat" where
  "remaining_work s =
     2 * length (queue (product_url_queue s)) + sum_list (map worker_weight (workers s))
       + orchestrator_weight (orchestrator s) (length (workers s))"

subsection \<open>Invariants of the pipeline\<close>

text \<open>
  The completion count of the product queue is the number of items in the queue plus the
  number of products taken and not marked done, and no worker has died with an exception.
\<close>

definition queue_accounted :: "pipeline \<Rightarrow> bool" where
  "queue_accounted s =
     (unfinished_tasks (product_url_queue s) =
        length (queue (product_url_queue s)) + length (taken s)
      \<and> Exited ByError \<notin> set (workers s))"

text \<open>Every product that was put is in the queue, in a worker's hand or marked done.\<close>

definition nothing_lost :: "pipeline \<Rightarrow> bool" where
  "nothing_lost s =
     (set (enqueued_products (events s))
        \<subseteq> set (items_of (queue (product_url_queue s))) \<union> set (taken s)
            \<union> set (done_products (events s)))"

definition all_done :: "pipeline \<Rightarrow> bool" where
  "all_done s = (set (enqueued_products (events s)) \<subseteq> set (done_products (events s)))"

text \<open>
  The order of the handshake, by the position of the orchestrator: no sentinel of either
  kind has been put while it waits in \<open>join\<close>; while it puts the worker sentinels
  everything is marked done and at most one sentinel per worker has been put; the
  sentinel of the writer is put once and only with every worker gone.
\<close>

definition handshake_order :: "pipeline \<Rightarrow> bool" where
  "handshake_order s =
     ((PutProduct None \<in> set (events s) \<longrightarrow> all_done s) \<and>
      (PutRecordSentinel \<in> set (events s) \<longrightarrow>
         list_all is_exited (workers s) \<and> count_list (events s) PutRecordSentinel = 1) \<and>
      (case orchestrator s of
         Joining \<Rightarrow>
           PutProduct None \<notin> set (events s) \<and> PutRecordSentinel \<notin> set (events s)
       | Signalling k \<Rightarrow>
           all_done s \<and> PutRecordSentinel \<notin> set (events s) \<and>
           count_list (events s) (PutProduct None) + k = length (workers s)
       | WaitingWorkers \<Rightarrow>
           PutRecordSentinel \<notin> set (events s) \<and>
           count_list (events s) (PutProduct None) \<le> length (workers s)
       | _ \<Rightarrow> count_list (events s) (PutProduct None) \<le> length (workers s)))"

text \<open>The events a worker emits in its loop, and those of the writer.\<close>

fun worker_event :: "event \<Rightarrow> bool" where
  "worker_event (ProductDone i x) = True"
| "worker_event (PutRecord i r) = True"
| "worker_event LogWarning = True"
| "worker_event LogError = True"
| "worker_event _ = False"

fun writer_event :: "event \<Rightarrow> bool" where
  "writer_event (RecordDone x) = True"
| "writer_event LogError = True"
| "writer_event LogCritical = True"
| "writer_event _ = False"

text \<open>The events of the discovery phase, before the queue is populated.\<close>

fun discovery_event :: "event \<Rightarrow> bool" where
  "discovery_event (FetchPage u t) = True"
| "discovery_event LogWarning = True"
| "discovery_event LogError = True"
| "discovery_event LogCritical = True"
| "discovery_event _ = False"

text \<open>
  The number of worker sentinels put so far: none while the orchestrator waits in
  \<open>join\<close>, all but the \<open>k\<close> still to come while it puts them, one per worker thread
  afterwards, when also the sentinel of the writer has been put once the orchestrator has
  passed the wait for the workers.
\<close>

definition sentinels_put :: "pipeline \<Rightarrow> bool" where
  "sentinels_put s =
     (case orchestrator s of
        Joining \<Rightarrow> count_list (events s) (PutProduct None) = 0
      | Signalling k \<Rightarrow> count_list (events s) (PutProduct None) + k = length (workers s)
      | WaitingWorkers \<Rightarrow> count_list (events s) (PutProduct None) = length (workers s)
      | JoiningWriter \<Rightarrow>
          count_list (events s) (PutProduct None) = length (workers s) \<and>
          PutRecordSentinel \<in> set (events s)
      | _ \<Rightarrow> count_list (events s) (PutProduct None) = length (workers s))"

subsection \<open>What a worker makes of a product\<close>

text \<open>
  The body of the worker's \<open>try\<close> without the queue operations: the exception that
  \<open>fetch_page\<close> or the extractor raises, \<open>None\<close> for a failed fetch, or the extracted
  record with the url of the product attached.
\<close>

definition worker_outcome :: "env \<Rightarrow> product_info \<Rightarrow> py_exception + product_data option" where
  "worker_outcome env p =
     (case scraper_fetch_page env (url p) (sleep_between_product_pages env) of
        Inl e \<Rightarrow> Inl e
      | Inr None \<Rightarrow> Inr None
      | Inr (Some product_detail_tree) \<Rightarrow>
          (case extractor_extract env product_detail_tree (name_on_listing p)
                  (category_on_listing p) of
             Inl e \<Rightarrow> Inl e
           | Inr details \<Rightarrow>
               Inr (Some (product_details.extend details (product_data.fields (url p))))))"

definition yields_record :: "env \<Rightarrow> product_info \<Rightarrow> bool" where
  "yields_record env p = (case worker_outcome env p of Inr (Some r) \<Rightarrow> True | _ \<Rightarrow> False)"

text \<open>The scraper and the extractor never raise \<open>queue.Empty\<close>.\<close>

definition never_raises_empty :: "env \<Rightarrow> bool" where
  "never_raises_empty env = (\<forall>p. worker_outcome env p \<noteq> Inl Empty)"

text \<open>
  No worker has left its loop on an \<open>Empty\<close> with a product in hand; and while the
  orchestrator waits in \<open>join\<close> there are workers, the queue holds no sentinel, and once
  a worker has left its loop the queue is empty.
\<close>

definition join_drains :: "pipeline \<Rightarrow> bool" where
  "join_drains s =
     ((\<forall>p. Exited (ByEmpty p) \<notin> set (workers s)) \<and>
      (orchestrator s = Joining \<longrightarrow>
         workers s \<noteq> [] \<and> None \<notin> set (queue (product_url_queue s)) \<and>
         ((\<exists>w \<in> set (workers s). is_exited w) \<longrightarrow> queue (product_url_queue s) = [])))"

subsection \<open>The writer and its transaction\<close>


section \<open>Properties of the deduplication\<close>

lemma dict_setitem_keys_in:
  "k \<in> fst ` set d \<Longrightarrow> map fst (dict_setitem k v d) = map fst d"
  by (induction d) force+

lemma dict_setitem_keys_out:
  "k \<notin> fst ` set d \<Longrightarrow> map fst (dict_setitem k v d) = map fst d @ [k]"
  by (induction d) auto

lemma dict_setitem_keys:
  "map fst (dict_setitem k v d) =
     (if k \<in> set (map fst d) then map fst d else map fst d @ [k])"
  by (simp add: dict_setitem_keys_in dict_setitem_keys_out)

lemma dict_setitem_map_of: "map_of (dict_setitem k v d) = (map_of d)(k \<mapsto> v)"
  by (induction d) (auto simp: fun_eq_iff)

lemma dedup_fold_keys:
  "map fst (fold (\<lambda>p d. dict_setitem (url p) p d) ps d) =
     fold (\<lambda>x acc. if x \<in> set acc then acc else acc @ [x]) (map url ps) (map fst d)"
proof (induction ps arbitrary: d)
  case Nil
  show ?case by simp
next
  case (Cons p ps)
  show ?case
    using Cons.IH [of "dict_setitem (url p) p d"]
    by (simp add: dict_setitem_keys)
qed

lemma dedup_dict_keys: "map fst (dedup_dict ps) = first_occurrences (map url ps)"
  by (simp add: dedup_dict_def first_occurrences_def dedup_fold_keys)

lemma first_fold_distinct:
  "distinct acc \<Longrightarrow>
     distinct (fold (\<lambda>x acc. if x \<in> set acc then acc else acc @ [x]) xs acc)"
  by (induction xs arbitrary: acc) auto

lemma first_fold_set:
  "set (fold (\<lambda>x acc. if x \<in> set acc then acc else acc @ [x]) xs acc) = set acc \<union> set xs"
  by (induction xs arbitrary: acc) auto

lemma first_occurrences_distinct: "distinct (first_occurrences xs)"
  by (simp add: first_occurrences_def first_fold_distinct)

lemma first_occurrences_set: "set (first_occurrences xs) = set xs"
  by (simp add: first_occurrences_def first_fold_set)

lemma dedup_fold_map_of:
  "map_of (fold (\<lambda>p d. dict_setitem (url p) p d) ps d) k =
     (case filter (\<lambda>q. url q = k) ps of
        [] \<Rightarrow> map_of d k
      | q # qs \<Rightarrow> Some (last (q # qs)))"
proof (induction ps arbitrary: d)
  case Nil
  show ?case by simp
next
  case (Cons p ps)
  show ?case
    using Cons.IH [of "dict_setitem (url p) p d"]
    by (auto simp: dict_setitem_map_of split: list.splits)
qed

lemma dedup_dict_entry:
  assumes "(k, v) \<in> set (dedup_dict ps)"
  shows "v = last (filter (\<lambda>q. url q = k) ps) \<and> filter (\<lambda>q. url q = k) ps \<noteq> []"
proof -
  have d: "distinct (map fst (dedup_dict ps))"
    by (simp add: dedup_dict_keys first_occurrences_distinct)
  from assms d have "map_of (dedup_dict ps) k = Some v" by simp
  then show ?thesis
    by (simp add: dedup_dict_def dedup_fold_map_of split: list.splits)
qed

lemma dedup_dict_key_url:
  assumes a: "(k, v) \<in> set (dedup_dict ps)"
  shows "url v = k"
proof -
  from dedup_dict_entry [OF a] have v: "v = last (filter (\<lambda>q. url q = k) ps)"
    and ne: "filter (\<lambda>q. url q = k) ps \<noteq> []" by simp_all
  from ne have "last (filter (\<lambda>q. url q = k) ps) \<in> set (filter (\<lambda>q. url q = k) ps)"
    by (rule last_in_set)
  with v show ?thesis by simp
qed

lemma unique_urls:
  "map url (unique_products_to_process ps) = first_occurrences (map url ps)"
proof -
  have "map url (map snd (dedup_dict ps)) = map fst (dedup_dict ps)"
    by (rule nth_equalityI)
      (auto simp: dedup_dict_key_url [of "fst (dedup_dict ps ! i)" "snd (dedup_dict ps ! i)" ps for i])
  then show ?thesis
    by (simp add: unique_products_to_process_def dict_values_def dedup_dict_keys)
qed

lemma unique_last:
  assumes "p \<in> set (unique_products_to_process ps)"
  shows "p = last (filter (\<lambda>q. url q = url p) ps)"
proof -
  from assms obtain k where k: "(k, p) \<in> set (dedup_dict ps)"
    by (auto simp: unique_products_to_process_def dict_values_def)
  from dedup_dict_key_url [OF k] dedup_dict_entry [OF k] show ?thesis by simp
qed

lemma scenario_unique:
  "unique_products_to_process scenario_products =
     [\<lparr>name_on_listing = ''A-dup'', url = ''https://example.test/marketplace/a'',
        category_on_listing = ''it-infrastructure''\<rparr>,
      \<lparr>name_on_listing = ''B'', url = ''https://example.test/marketplace/b'',
        category_on_listing = ''it-infrastructure''\<rparr>]"
  by (simp add: unique_products_to_process_def dict_values_def dedup_dict_def
      scenario_products_def)

lemma scenario_queue_negative:
  "products_to_queue True (- 1) scenario_products =
     [\<lparr>name_on_listing = ''A-dup'', url = ''https://example.test/marketplace/a'',
        category_on_listing = ''it-infrastructure''\<rparr>]"
  by (simp add: products_to_queue_def py_slice_to_def scenario_unique)

lemma scenario_first_occurrences:
  "first_occurrences (map url scenario_products) =
     [''https://example.test/marketplace/a'', ''https://example.test/marketplace/b'']"
  by (simp add: first_occurrences_def scenario_products_def)

text \<open>
  Claim C3, as stated, bounds the number of queued entries in test mode by the configured
  \<open>TEST_PRODUCT_LIMIT\<close>, which \<open>config.py\<close> reads as any integer. With the limit
  \<open>-1\<close> the slice drops the last of the two deduplicated entries of the scenario and one
  entry is queued, which is more than the limit.
\<close>

theorem test_limit_negative_counterexample:
  "length (unique_products_to_process scenario_products) = 2 \<and>
   length (products_to_queue True (- 1) scenario_products) = 1 \<and>
   \<not> int (length (products_to_queue True (- 1) scenario_products)) \<le> - 1"
  by (simp add: scenario_queue_negative scenario_unique)

text \<open>
  Claim C3, amended. The deduplication yields exactly one entry per distinct url (the
  urls of the result are distinct and are the urls of the input), and every entry is the
  last product of the input with its url, so its name and category are those of the last
  occurrence. Outside test mode all the deduplicated entries are queued. In test mode
  with a limit \<open>n\<close> that is not negative the first \<open>n\<close> of them are queued, so at most
  \<open>n\<close>; with a negative limit \<open>-m\<close> all but the last \<open>m\<close> of them are queued.
\<close>

theorem dedup_one_entry_per_url_last_wins:
  "distinct (map url (unique_products_to_process ps)) \<and>
   set (map url (unique_products_to_process ps)) = set (map url ps) \<and>
   (\<forall>p \<in> set (unique_products_to_process ps).
      p = last (filter (\<lambda>q. url q = url p) ps)) \<and>
   products_to_queue False limit ps = unique_products_to_process ps \<and>
   products_to_queue True limit ps =
     (if 0 \<le> limit then take (nat limit) (unique_products_to_process ps)
      else take (length (unique_products_to_process ps) - nat (- limit))
             (unique_products_to_process ps)) \<and>
   length (products_to_queue True limit ps) =
     (if 0 \<le> limit then min (nat limit) (length (unique_products_to_process ps))
      else length (unique_products_to_process ps) - nat (- limit)) \<and>
   (0 \<le> limit \<longrightarrow> length (products_to_queue True limit ps) \<le> nat limit)"
proof -
  let ?u = "unique_products_to_process ps"
  have 1: "distinct (map url ?u)" "set (map url ?u) = set (map url ps)"
    by (simp_all add: unique_urls first_occurrences_distinct first_occurrences_set)
  have 2: "\<forall>p \<in> set ?u. p = last (filter (\<lambda>q. url q = url p) ps)"
    by (simp add: unique_last)
  have 3: "products_to_queue False limit ps = ?u"
    by (simp add: products_to_queue_def)
  have 4: "products_to_queue True limit ps =
     (if 0 \<le> limit then take (nat limit) ?u else take (length ?u - nat (- limit)) ?u)"
    by (simp add: products_to_queue_def py_slice_to_def)
  have 5: "length (products_to_queue True limit ps) =
     (if 0 \<le> limit then min (nat limit) (length ?u) else length ?u - nat (- limit))"
  proof (cases "0 \<le> limit")
    case True
    then show ?thesis unfolding 4 by (simp add: min.commute)
  next
    case False
    have "min (length ?u) (length ?u - nat (- limit)) = length ?u - nat (- limit)"
      by (rule min_absorb2) simp
    with False show ?thesis unfolding 4 by simp
  qed
  have 6: "0 \<le> limit \<longrightarrow> length (products_to_queue True limit ps) \<le> nat limit"
    unfolding 5 by simp
  from 1 2 3 4 5 6 show ?thesis by (intro conjI)
qed

theorem dedup_one_entry_per_url_last_wins_witness:
  "\<lparr>name_on_listing = ''A-dup'', url = ''https://example.test/marketplace/a'',
      category_on_listing = ''it-infrastructure''\<rparr>
     \<in> set (unique_products_to_process scenario_products) \<and>
   (0::int) \<le> 1 \<and>
   distinct (map url (unique_products_to_process scenario_products)) \<and>
   last (filter (\<lambda>q. url q = ''https://example.test/marketplace/a'') scenario_products) =
     \<lparr>name_on_listing = ''A-dup'', url = ''https://example.test/marketplace/a'',
        category_on_listing = ''it-infrastructure''\<rparr> \<and>
   length (unique_products_to_process scenario_products) = 2 \<and>
   length (products_to_queue True 1 scenario_products) \<le> nat 1 \<and>
   length (products_to_queue True 1 scenario_products) = 1 \<and>
   length (products_to_queue True (- 1) scenario_products) = 1 \<and>
   length (products_to_queue True (- 2) scenario_products) = 0"
proof -
  let ?a = "\<lparr>name_on_listing = ''A-dup'', url = ''https://example.test/marketplace/a'',
      category_on_listing = ''it-infrastructure''\<rparr>"
  note t = dedup_one_entry_per_url_last_wins [of scenario_products 1]
  have m: "?a \<in> set (unique_products_to_process scenario_products)"
    by (simp add: scenario_unique)
  have z: "(0::int) \<le> 1" by simp
  from t have "\<forall>p \<in> set (unique_products_to_process scenario_products).
      p = last (filter (\<lambda>q. url q = url p) scenario_products)" by blast
  from bspec [OF this m]
  have l: "last (filter (\<lambda>q. url q = ''https://example.test/marketplace/a'') scenario_products) = ?a"
    by simp
  have n: "length (unique_products_to_process scenario_products) = 2"
    by (simp add: scenario_unique)
  from t z have d: "distinct (map url (unique_products_to_process scenario_products))"
    and b: "length (products_to_queue True 1 scenario_products) \<le> nat 1"
    by blast+
  from t n have e1: "length (products_to_queue True 1 scenario_products) = 1"
    by simp
  from dedup_one_entry_per_url_last_wins [of scenario_products "- 1"] n
  have e2: "length (products_to_queue True (- 1) scenario_products) = 1"
    by simp
  from dedup_one_entry_per_url_last_wins [of scenario_products "- 2"] n
  have e3: "length (products_to_queue True (- 2) scenario_products) = 0"
    by simp
  from m z d l n b e1 e2 e3 show ?thesis by (intro conjI)
qed

text \<open>
  Claim C10, as stated, has the test-mode truncation keep exactly the first cap-many
  distinct urls. With the limit \<open>-1\<close> the first \<open>-1\<close> urls are none, and the slice keeps
  the first of the two distinct urls of the scenario.
\<close>

theorem truncation_negative_counterexample:
  "first_occurrences (map url scenario_products) =
     [''https://example.test/marketplace/a'', ''https://example.test/marketplace/b''] \<and>
   take (nat (- 1)) (first_occurrences (map url scenario_products)) = [] \<and>
   map url (products_to_queue True (- 1) scenario_products) =
     [''https://example.test/marketplace/a'']"
  by (simp add: scenario_queue_negative scenario_first_occurrences)

text \<open>
  Claim C10, amended. The urls of the deduplicated collection are the distinct urls of
  the input in the order of their first occurrence. The test-mode slice with a limit
  \<open>n\<close> that is not negative keeps exactly the first \<open>n\<close> of them, in that order; with a
  negative limit \<open>-m\<close> it keeps all but the last \<open>m\<close> of them, in that order.
\<close>

theorem dedup_keeps_first_occurrence_order:
  "map url (unique_products_to_process ps) = first_occurrences (map url ps) \<and>
   map url (products_to_queue True limit ps) =
     (if 0 \<le> limit then take (nat limit) (first_occurrences (map url ps))
      else take (length (first_occurrences (map url ps)) - nat (- limit))
             (first_occurrences (map url ps)))"
proof -
  have "length (unique_products_to_process ps) = length (first_occurrences (map url ps))"
    using unique_urls [of ps] by (metis length_map)
  then show ?thesis
    by (simp add: unique_urls products_to_queue_def py_slice_to_def take_map [symmetric])
qed

theorem dedup_keeps_first_occurrence_order_witness:
  "map url (products_to_queue True 1 scenario_products) =
     [''https://example.test/marketplace/a''] \<and>
   map url (products_to_queue True (- 1) scenario_products) =
     [''https://example.test/marketplace/a''] \<and>
   map url (products_to_queue True 5 scenario_products) =
     [''https://example.test/marketplace/a'', ''https://example.test/marketplace/b'']"
proof -
  note f = scenario_first_occurrences
  from dedup_keeps_first_occurrence_order [of scenario_products 1]
  have 1: "map url (products_to_queue True 1 scenario_products) =
     [''https://example.test/marketplace/a'']" by (simp add: f)
  from dedup_keeps_first_occurrence_order [of scenario_products "- 1"]
  have 2: "map url (products_to_queue True (- 1) scenario_products) =
     [''https://example.test/marketplace/a'']" by (simp add: f)
  from dedup_keeps_first_occurrence_order [of scenario_products 5]
  have 3: "map url (products_to_queue True 5 scenario_products) =
     [''https://example.test/marketplace/a'', ''https://example.test/marketplace/b'']"
    by (simp add: f)
  from 1 2 3 show ?thesis by (intro conjI)
qed

section \<open>Properties of the extractor\<close>

lemma py_first_Cons: "xs \<noteq> [] \<Longrightarrow> py_first xs = Inr (hd xs)"
  by (cases xs) (simp_all add: py_first_def)

lemma extract_name_effect:
  "\<exists>d'. extract_name t d = Inr d' \<and> category d' = category d \<and>
     price_median d' = price_median d \<and> price_low d' = price_low d \<and>
     price_high d' = price_high d \<and> description d' = description d \<and>
     (product_name_detail_element t = [] \<longrightarrow> product_name d' = product_name d)"
  by (simp add: extract_name_def ebind_def py_first_Cons)

lemma extract_description_effect:
  "\<exists>d'. extract_description t d = Inr d' \<and> product_name d' = product_name d \<and>
     category d' = category d \<and> price_median d' = price_median d \<and>
     price_low d' = price_low d \<and> price_high d' = price_high d \<and>
     (filter description_filter (map py_strip (product_description_elements t)) = [] \<longrightarrow>
        description d' = description d)"
  by (simp add: extract_description_def Let_def)

lemma extract_median_effect:
  "\<exists>d'. extract_median t d = Inr d' \<and> product_name d' = product_name d \<and>
     category d' = category d \<and> price_low d' = price_low d \<and>
     price_high d' = price_high d \<and> description d' = description d \<and>
     (median_price_span t = [] \<longrightarrow> price_median d' = price_median d)"
  by (simp add: extract_median_def ebind_def py_first_Cons)

lemma extract_low_effect:
  "\<exists>d'. extract_low c d = Inr d' \<and> product_name d' = product_name d \<and>
     category d' = category d \<and> price_median d' = price_median d \<and>
     price_high d' = price_high d \<and> description d' = description d \<and>
     (low_price_element c = [] \<longrightarrow> price_low d' = price_low d)"
  by (simp add: extract_low_def ebind_def py_first_Cons)

lemma extract_high_effect:
  "\<exists>d'. extract_high c d = Inr d' \<and> product_name d' = product_name d \<and>
     category d' = category d \<and> price_median d' = price_median d \<and>
     price_low d' = price_low d \<and> description d' = description d \<and>
     (high_price_element c = [] \<longrightarrow> price_high d' = price_high d)"
  by (simp add: extract_high_def ebind_def py_first_Cons)

lemma extract_range_effect:
  "\<exists>d'. extract_range t d = Inr d' \<and> product_name d' = product_name d \<and>
     category d' = category d \<and> price_median d' = price_median d \<and>
     description d' = description d \<and>
     (price_range_container t = [] \<longrightarrow>
        price_low d' = price_low d \<and> price_high d' = price_high d) \<and>
     (price_range_container t \<noteq> [] \<and> low_price_element (hd (price_range_container t)) = []
        \<longrightarrow> price_low d' = price_low d) \<and>
     (price_range_container t \<noteq> [] \<and> high_price_element (hd (price_range_container t)) = []
        \<longrightarrow> price_high d' = price_high d)"
proof (cases "price_range_container t = []")
  case True
  then show ?thesis by (simp add: extract_range_def)
next
  case False
  let ?c = "hd (price_range_container t)"
  from extract_low_effect [of ?c d] obtain d1 where
    l: "extract_low ?c d = Inr d1" "product_name d1 = product_name d"
      "category d1 = category d" "price_median d1 = price_median d"
      "price_high d1 = price_high d" "description d1 = description d"
      "low_price_element ?c = [] \<longrightarrow> price_low d1 = price_low d"
    by blast
  from extract_high_effect [of ?c d1] obtain d2 where
    h: "extract_high ?c d1 = Inr d2" "product_name d2 = product_name d1"
      "category d2 = category d1" "price_median d2 = price_median d1"
      "price_low d2 = price_low d1" "description d2 = description d1"
      "high_price_element ?c = [] \<longrightarrow> price_high d2 = price_high d1"
    by blast
  from False l(1) h(1) have "extract_range t d = Inr d2"
    by (simp add: extract_range_def ebind_def py_first_Cons)
  with False l h show ?thesis by simp
qed

lemma extract_category_effect:
  "\<exists>d'. extract_category t d = Inr d' \<and> product_name d' = product_name d \<and>
     price_median d' = price_median d \<and> price_low d' = price_low d \<and>
     price_high d' = price_high d \<and> description d' = description d \<and>
     (category_detail_element t = [] \<longrightarrow> category d' = category d)"
  by (simp add: extract_category_def ebind_def py_first_Cons)

text \<open>
  Claim C9. \<open>extract_product_details\<close> is a function of the document and the two
  fallbacks that never raises: it returns a record, whose name and category are the
  fallbacks when the page has no name heading or no breadcrumb category, whose prices are
  "Not specified" when the median span, the range container or the span inside the first
  container is absent, and whose description is "No detailed description found." when no
  description element passes the filter (in particular when there is none). All six
  fields have type string.
\<close>

theorem extract_product_details_never_fails:
  "\<exists>r. extract_product_details product_tree listing_product_name listing_category = Inr r \<and>
     (product_name_detail_element product_tree = [] \<longrightarrow> product_name r = listing_product_name) \<and>
     (category_detail_element product_tree = [] \<longrightarrow> category r = listing_category) \<and>
     (median_price_span product_tree = [] \<longrightarrow> price_median r = ''Not specified'') \<and>
     (price_range_container product_tree = [] \<longrightarrow>
        price_low r = ''Not specified'' \<and> price_high r = ''Not specified'') \<and>
     (price_range_container product_tree \<noteq> [] \<and>
      low_price_element (hd (price_range_container product_tree)) = [] \<longrightarrow>
        price_low r = ''Not specified'') \<and>
     (price_range_container product_tree \<noteq> [] \<and>
      high_price_element (hd (price_range_container product_tree)) = [] \<longrightarrow>
        price_high r = ''Not specified'') \<and>
     (filter description_filter (map py_strip (product_description_elements product_tree)) = []
        \<longrightarrow> description r = ''No detailed description found.'') \<and>
     (product_description_elements product_tree = [] \<longrightarrow>
        description r = ''No detailed description found.'')"
proof -
  let ?t = product_tree
  let ?d0 = "\<lparr>product_name = listing_product_name, category = listing_category,
      price_median = ''Not specified'', price_low = ''Not specified'',
      price_high = ''Not specified'', description = ''No detailed description found.''\<rparr>"
  from extract_name_effect [of ?t ?d0] obtain d1 where
    1: "extract_name ?t ?d0 = Inr d1" "category d1 = listing_category"
      "price_median d1 = ''Not specified''" "price_low d1 = ''Not specified''"
      "price_high d1 = ''Not specified''" "description d1 = ''No detailed description found.''"
      "product_name_detail_element ?t = [] \<longrightarrow> product_name d1 = listing_product_name"
    by auto
  from extract_description_effect [of ?t d1] obtain d2 where
    2: "extract_description ?t d1 = Inr d2" "product_name d2 = product_name d1"
      "category d2 = category d1" "price_median d2 = price_median d1"
      "price_low d2 = price_low d1" "price_high d2 = price_high d1"
      "filter description_filter (map py_strip (product_description_elements ?t)) = [] \<longrightarrow>
        description d2 = description d1"
    by blast
  from extract_median_effect [of ?t d2] obtain d3 where
    3: "extract_median ?t d2 = Inr d3" "product_name d3 = product_name d2"
      "category d3 = category d2" "price_low d3 = price_low d2"
      "price_high d3 = price_high d2" "description d3 = description d2"
      "median_price_span ?t = [] \<longrightarrow> price_median d3 = price_median d2"
    by blast
  from extract_range_effect [of ?t d3] obtain d4 where
    4: "extract_range ?t d3 = Inr d4" "product_name d4 = product_name d3"
      "category d4 = category d3" "price_median d4 = price_median d3"
      "description d4 = description d3"
      "price_range_container ?t = [] \<longrightarrow>
        price_low d4 = price_low d3 \<and> price_high d4 = price_high d3"
      "price_range_container ?t \<noteq> [] \<and> low_price_element (hd (price_range_container ?t)) = []
        \<longrightarrow> price_low d4 = price_low d3"
      "price_range_container ?t \<noteq> [] \<and> high_price_element (hd (price_range_container ?t)) = []
        \<longrightarrow> price_high d4 = price_high d3"
    by blast
  from extract_category_effect [of ?t d4] obtain d5 where
    5: "extract_category ?t d4 = Inr d5" "product_name d5 = product_name d4"
      "price_median d5 = price_median d4" "price_low d5 = price_low d4"
      "price_high d5 = price_high d4" "description d5 = description d4"
      "category_detail_element ?t = [] \<longrightarrow> category d5 = category d4"
    by blast
  have r: "extract_product_details ?t listing_product_name listing_category = Inr d5"
    by (simp add: extract_product_details_def ebind_def 1(1) 2(1) 3(1) 4(1) 5(1))
  have n: "product_name_detail_element ?t = [] \<longrightarrow> product_name d5 = listing_product_name"
    using 1(7) 2(2) 3(2) 4(2) 5(2) by simp
  have c: "category_detail_element ?t = [] \<longrightarrow> category d5 = listing_category"
    using 1(2) 2(3) 3(3) 4(3) 5(7) by simp
  have m: "median_price_span ?t = [] \<longrightarrow> price_median d5 = ''Not specified''"
    using 1(3) 2(4) 3(7) 4(4) 5(3) by simp
  have l: "price_range_container ?t = [] \<longrightarrow>
      price_low d5 = ''Not specified'' \<and> price_high d5 = ''Not specified''"
    using 1(4,5) 2(5,6) 3(4,5) 4(6) 5(4,5) by simp
  have l1: "price_range_container ?t \<noteq> [] \<and>
      low_price_element (hd (price_range_container ?t)) = [] \<longrightarrow> price_low d5 = ''Not specified''"
    using 1(4) 2(5) 3(4) 4(7) 5(4) by simp
  have h1: "price_range_container ?t \<noteq> [] \<and>
      high_price_element (hd (price_range_container ?t)) = [] \<longrightarrow> price_high d5 = ''Not specified''"
    using 1(5) 2(6) 3(5) 4(8) 5(5) by simp
  have d: "filter description_filter (map py_strip (product_description_elements ?t)) = [] \<longrightarrow>
      description d5 = ''No detailed description found.''"
    using 1(6) 2(7) 3(6) 4(5) 5(6) by simp
  have d': "product_description_elements ?t = [] \<longrightarrow>
      description d5 = ''No detailed description found.''"
    using d by simp
  from r n c m l l1 h1 d d' show ?thesis by blast
qed

theorem extract_product_details_never_fails_witness:
  "product_name_detail_element empty_document = [] \<and>
   price_range_container sample_detail_page \<noteq> [] \<and>
   high_price_element (hd (price_range_container sample_detail_page)) = [] \<and>
   category_detail_element sample_detail_page = [] \<and>
   (\<exists>r. extract_product_details empty_document ''N'' ''C'' = Inr r \<and>
      product_name r = ''N'' \<and> category r = ''C'' \<and> price_median r = ''Not specified'' \<and>
      price_low r = ''Not specified'' \<and> price_high r = ''Not specified'' \<and>
      description r = ''No detailed description found.'') \<and>
   (\<exists>r. extract_product_details sample_detail_page ''N'' ''C'' = Inr r \<and>
      category r = ''C'' \<and> price_high r = ''Not specified'')"
proof -
  have e: "product_name_detail_element empty_document = []"
    "category_detail_element empty_document = []"
    "median_price_span empty_document = []"
    "price_range_container empty_document = []"
    "product_description_elements empty_document = []"
    by (simp_all add: empty_document_def)
  have s: "price_range_container sample_detail_page \<noteq> []"
    "high_price_element (hd (price_range_container sample_detail_page)) = []"
    "category_detail_element sample_detail_page = []"
    by (simp_all add: sample_detail_page_def)
  from extract_product_details_never_fails [of empty_document "''N''" "''C''"] e
  have 1: "\<exists>r. extract_product_details empty_document ''N'' ''C'' = Inr r \<and>
      product_name r = ''N'' \<and> category r = ''C'' \<and> price_median r = ''Not specified'' \<and>
      price_low r = ''Not specified'' \<and> price_high r = ''Not specified'' \<and>
      description r = ''No detailed description found.''"
    by simp
  from extract_product_details_never_fails [of sample_detail_page "''N''" "''C''"] s
  have 2: "\<exists>r. extract_product_details sample_detail_page ''N'' ''C'' = Inr r \<and>
      category r = ''C'' \<and> price_high r = ''Not specified''"
    by blast
  from e s 1 2 show ?thesis by blast
qed

section \<open>Properties of the fetcher\<close>

lemma fetch_page_except_bound: "fetch_page_except e (Some full_url) = Inr None"
  by (simp add: fetch_page_except_def)

lemma fetch_page_except_unbound: "fetch_page_except e None = Inl UnboundLocalError"
  by (simp add: fetch_page_except_def)

lemma fetch_page_slept:
  "sleep_time \<le> 0 \<or> time_sleep ws sleep_time = Inr () \<Longrightarrow>
     fetch_page ws u sleep_time =
       fetch_page_try ws u (if 0 < sleep_time then [Sleep sleep_time] else [])"
  by (auto simp: fetch_page_def)



lemma fetch_page_try_returns:
  "resolve_url ws u = Inr full_url \<Longrightarrow> \<exists>r. fst (fetch_page_try ws u slept) = Inr r"
  by (simp add: fetch_page_try_def Let_def fetch_page_except_bound split: sum.splits)





lemma fetch_page_try_urljoin_raises:
  "resolve_url ws u = Inl e \<Longrightarrow>
     fetch_page_try ws u slept = (Inl UnboundLocalError, slept)"
  by (simp add: fetch_page_try_def fetch_page_except_unbound)

text \<open>
  When \<open>urljoin\<close> itself raises, the handler's log message reads the unbound
  \<open>full_url\<close> and \<open>fetch_page\<close> raises \<open>UnboundLocalError\<close> to its caller, before any
  request.
\<close>

lemma fetch_page_urljoin_raises:
  assumes "sleep_time \<le> 0 \<or> time_sleep ws sleep_time = Inr ()"
    and "resolve_url ws u = Inl e"
  shows "fst (fetch_page ws u sleep_time) = Inl UnboundLocalError \<and>
     (\<forall>full_url t. SessionGet full_url t \<notin> set (snd (fetch_page ws u sleep_time)))"
  using assms(1) by (auto simp: fetch_page_slept fetch_page_try_urljoin_raises [OF assms(2)])

lemma fetch_page_urljoin_raises_example:
  "fetch_page (example_scraper []) ''//[::1'' 0 = (Inl UnboundLocalError, [])"
  by (simp add: fetch_page_def fetch_page_try_def resolve_url_def example_scraper_def
      example_urljoin_def py_startswith_def fetch_page_except_def)

text \<open>
  When \<open>time.sleep\<close> raises, as it does for ten thousand million seconds, the exception
  leaves \<open>fetch_page\<close>.
\<close>

lemma fetch_page_sleep_raises_example:
  "fetch_page (example_scraper []) ''/a'' 10000000000 =
     (Inl OverflowError, [Sleep 10000000000])"
  by (simp add: fetch_page_def example_scraper_def example_sleep_def)




section \<open>Single steps\<close>

lemma sum_list_map_update:
  "i < length ws \<Longrightarrow> sum_list (map f (ws[i := w])) + f (ws ! i) = sum_list (map f ws) + (f w :: nat)"
proof (induction ws arbitrary: i)
  case Nil
  then show ?case by simp
next
  case (Cons a ws)
  show ?case
  proof (cases i)
    case 0
    then show ?thesis by simp
  next
    case (Suc j)
    with Cons.prems have "j < length ws" by simp
    from Cons.IH [OF this] Suc show ?thesis by simp
  qed
qed

lemma emit_fields [simp]:
  "workers (emit es s) = workers s"
  "orchestrator (emit es s) = orchestrator s"
  "writer (emit es s) = writer s"
  "db_manager (emit es s) = db_manager s"
  "data_to_write_queue (emit es s) = data_to_write_queue s"
  "product_url_queue (emit es s) = product_url_queue s"
  "events (emit es s) = events s @ es"
  by (simp_all add: emit_def)

lemma worker_except_Empty:
  "worker_except i item Empty s =
     (Exited (case item of None \<Rightarrow> ByTimeout | Some p \<Rightarrow> ByEmpty p), s)"
  by (simp add: worker_except_def)

lemma product_task_done_frame:
  "product_task_done i item s = (r, s') \<Longrightarrow>
     workers s' = workers s \<and> orchestrator s' = orchestrator s \<and> writer s' = writer s \<and>
     db_manager s' = db_manager s \<and> data_to_write_queue s' = data_to_write_queue s \<and>
     queue (product_url_queue s') = queue (product_url_queue s)"
  by (auto simp: product_task_done_def task_done_def split: if_splits)

lemma worker_except_frame:
  "worker_except i item e s = (w, s') \<Longrightarrow>
     workers s' = workers s \<and> orchestrator s' = orchestrator s \<and> writer s' = writer s \<and>
     db_manager s' = db_manager s \<and> data_to_write_queue s' = data_to_write_queue s \<and>
     queue (product_url_queue s') = queue (product_url_queue s) \<and>
     (w = Idle \<or> is_exited w)"
  by (auto simp: worker_except_def is_exited_def
      dest!: product_task_done_frame split: if_splits prod.splits option.splits)

lemma worker_get_frame:
  "worker_get i s = (w, s') \<Longrightarrow>
     workers s' = workers s \<and> orchestrator s' = orchestrator s \<and> writer s' = writer s \<and>
     db_manager s' = db_manager s \<and> data_to_write_queue s' = data_to_write_queue s \<and>
     queue (product_url_queue s') = tl (queue (product_url_queue s)) \<and>
     (queue (product_url_queue s) = [] \<longrightarrow> is_exited w)"
  by (auto simp: worker_get_def get_def is_exited_def worker_except_Empty
      dest!: product_task_done_frame worker_except_frame
      split: list.splits option.splits prod.splits if_splits)

lemma worker_try_frame:
  "worker_try env i p s = (r, s') \<Longrightarrow>
     workers s' = workers s \<and> orchestrator s' = orchestrator s \<and> writer s' = writer s \<and>
     db_manager s' = db_manager s \<and>
     queue (product_url_queue s') = queue (product_url_queue s)"
  by (auto simp: worker_try_def put_record_def
      dest!: product_task_done_frame split: sum.splits option.splits)

lemma worker_process_frame:
  "worker_process env i p s = (w, s') \<Longrightarrow>
     workers s' = workers s \<and> orchestrator s' = orchestrator s \<and> writer s' = writer s \<and>
     db_manager s' = db_manager s \<and>
     queue (product_url_queue s') = queue (product_url_queue s) \<and>
     (w = Idle \<or> is_exited w)"
  by (auto simp: worker_process_def
      dest!: worker_try_frame worker_except_frame split: prod.splits option.splits)

lemma worker_get_snd [simp]:
  "workers (snd (worker_get i s)) = workers s"
  "orchestrator (snd (worker_get i s)) = orchestrator s"
  "writer (snd (worker_get i s)) = writer s"
  "db_manager (snd (worker_get i s)) = db_manager s"
  "data_to_write_queue (snd (worker_get i s)) = data_to_write_queue s"
  "queue (product_url_queue (snd (worker_get i s))) = tl (queue (product_url_queue s))"
  using worker_get_frame [of i s "fst (worker_get i s)" "snd (worker_get i s)"]
  by simp_all

lemma worker_process_snd [simp]:
  "workers (snd (worker_process env i p s)) = workers s"
  "orchestrator (snd (worker_process env i p s)) = orchestrator s"
  "writer (snd (worker_process env i p s)) = writer s"
  "db_manager (snd (worker_process env i p s)) = db_manager s"
  "queue (product_url_queue (snd (worker_process env i p s))) = queue (product_url_queue s)"
  using worker_process_frame [of env i p s "fst (worker_process env i p s)"
      "snd (worker_process env i p s)"]
  by simp_all

section \<open>Every worker step reduces the remaining work\<close>

lemma worker_weight_le: "worker_weight w \<le> 2"
  by (cases w) simp_all

lemma worker_weight_exited: "is_exited w \<Longrightarrow> worker_weight w = 0"
  by (cases w) (simp_all add: is_exited_def)

lemma worker_weight_after_process: "w = Idle \<or> is_exited w \<Longrightarrow> worker_weight w \<le> 1"
  by (auto simp: worker_weight_exited)

lemma worker_step_decreases:
  assumes "worker_step env i s = Some s'"
  shows "remaining_work s' < remaining_work s"
proof -
  from assms have i: "i < length (workers s)"
    by (simp add: worker_step_def split: if_splits)
  show ?thesis
  proof (cases "workers s ! i")
    case Idle
    obtain w s1 where g: "worker_get i s = (w, s1)" by (cases "worker_get i s")
    from assms i Idle g have s': "s' = s1\<lparr>workers := (workers s1)[i := w]\<rparr>"
      by (simp add: worker_step_def set_worker_def)
    note f = worker_get_frame [OF g]
    from sum_list_map_update [OF i, of worker_weight w] Idle
    have sm: "sum_list (map worker_weight ((workers s)[i := w])) + 1 =
        sum_list (map worker_weight (workers s)) + worker_weight w" by simp
    show ?thesis
    proof (cases "queue (product_url_queue s)")
      case Nil
      with f have "worker_weight w = 0" by (simp add: worker_weight_exited)
      with sm f s' Nil show ?thesis by (simp add: remaining_work_def)
    next
      case (Cons x xs)
      from worker_weight_le [of w] sm f s' Cons show ?thesis
        by (simp add: remaining_work_def)
    qed
  next
    case (Holding p)
    obtain w s1 where g: "worker_process env i p s = (w, s1)"
      by (cases "worker_process env i p s")
    from assms i Holding g have s': "s' = s1\<lparr>workers := (workers s1)[i := w]\<rparr>"
      by (simp add: worker_step_def set_worker_def)
    note f = worker_process_frame [OF g]
    from f worker_weight_after_process [of w] have "worker_weight w \<le> 1" by blast
    with sum_list_map_update [OF i, of worker_weight w] Holding f s' show ?thesis
      by (simp add: remaining_work_def)
  next
    case (Exited r)
    with assms i show ?thesis by (simp add: worker_step_def)
  qed
qed

lemma worker_step_length:
  "worker_step env i s = Some s' \<Longrightarrow> length (workers s') = length (workers s)"
  by (auto simp: worker_step_def set_worker_def
      split: if_splits worker_state.splits)

lemma worker_step_others:
  "worker_step env i s = Some s' \<Longrightarrow> j \<noteq> i \<Longrightarrow> workers s' ! j = workers s ! j"
  by (auto simp: worker_step_def set_worker_def
      split: if_splits worker_state.splits)

lemma worker_step_orchestrator:
  "worker_step env i s = Some s' \<Longrightarrow>
     orchestrator s' = orchestrator s \<and> writer s' = writer s \<and> db_manager s' = db_manager s"
  by (auto simp: worker_step_def set_worker_def
      split: if_splits worker_state.splits)

lemma worker_step_enabled:
  "i < length (workers s) \<Longrightarrow> \<not> is_exited (workers s ! i) \<Longrightarrow> \<exists>s'. worker_step env i s = Some s'"
  by (cases "workers s ! i") (simp_all add: worker_step_def is_exited_def)

lemma record_task_done_frame:
  "record_task_done item s = (r, s') \<Longrightarrow>
     workers s' = workers s \<and> orchestrator s' = orchestrator s \<and> writer s' = writer s \<and>
     db_manager s' = db_manager s \<and> product_url_queue s' = product_url_queue s \<and>
     queue (data_to_write_queue s') = queue (data_to_write_queue s)"
  by (auto simp: record_task_done_def task_done_def split: if_splits)

lemma writer_insert_frame:
  "workers (writer_insert env r s) = workers s \<and>
   orchestrator (writer_insert env r s) = orchestrator s \<and>
   writer (writer_insert env r s) = writer s \<and>
   product_url_queue (writer_insert env r s) = product_url_queue s \<and>
   data_to_write_queue (writer_insert env r s) = data_to_write_queue s"
  by (simp add: writer_insert_def split: prod.splits option.splits)

lemma writer_iteration_frame:
  "writer_iteration env s = (sig, s') \<Longrightarrow>
     workers s' = workers s \<and> orchestrator s' = orchestrator s \<and> writer s' = writer s \<and>
     product_url_queue s' = product_url_queue s"
  by (auto simp: writer_iteration_def get_def writer_insert_frame
      dest!: record_task_done_frame
      split: list.splits option.splits prod.splits)

lemma writer_step_frame:
  "writer_step env s = Some s' \<Longrightarrow>
     workers s' = workers s \<and> orchestrator s' = orchestrator s \<and>
     product_url_queue s' = product_url_queue s"
  by (auto simp: writer_step_def
      dest!: writer_iteration_frame
      split: writer_state.splits prod.splits option.splits loop_signal.splits)

lemma orchestrator_step_workers:
  "orchestrator_step s = Some s' \<Longrightarrow> workers s' = workers s"
  by (auto simp: orchestrator_step_def
      split: orchestrator_state.splits nat.splits if_splits)

lemma orchestrator_step_work:
  "orchestrator_step s = Some s' \<Longrightarrow> remaining_work s' \<le> remaining_work s"
  by (auto simp: orchestrator_step_def remaining_work_def put_def
      split: orchestrator_state.splits nat.splits if_splits)

lemma step_work:
  "step env a s = Some s' \<Longrightarrow> remaining_work s' \<le> remaining_work s"
proof (cases a)
  case (Worker i)
  assume "step env a s = Some s'"
  with Worker have "worker_step env i s = Some s'" by (simp add: step_def)
  from worker_step_decreases [OF this] show ?thesis by simp
next
  case Writer
  assume "step env a s = Some s'"
  with Writer have "writer_step env s = Some s'" by (simp add: step_def)
  from writer_step_frame [OF this] show ?thesis by (simp add: remaining_work_def)
next
  case Orchestrator
  assume "step env a s = Some s'"
  with Orchestrator show ?thesis by (simp add: step_def orchestrator_step_work)
qed

lemma step_length:
  "step env a s = Some s' \<Longrightarrow> length (workers s') = length (workers s)"
  by (cases a)
    (auto simp: step_def worker_step_length orchestrator_step_workers dest: writer_step_frame)

lemma step_exited:
  assumes "step env a s = Some s'" and "i < length (workers s)" and "is_exited (workers s ! i)"
  shows "is_exited (workers s' ! i)"
proof (cases a)
  case (Worker j)
  with assms(1) have w: "worker_step env j s = Some s'" by (simp add: step_def)
  show ?thesis
  proof (cases "j = i")
    case True
    with w assms(2,3) show ?thesis
      by (cases "workers s ! i") (simp_all add: worker_step_def is_exited_def)
  next
    case False
    then have "i \<noteq> j" by simp
    from worker_step_others [OF w this] assms(3) show ?thesis by simp
  qed
next
  case Writer
  with assms(1) have "writer_step env s = Some s'" by (simp add: step_def)
  from writer_step_frame [OF this] assms(3) show ?thesis by simp
next
  case Orchestrator
  with assms(1) have "orchestrator_step s = Some s'" by (simp add: step_def)
  from orchestrator_step_workers [OF this] assms(3) show ?thesis by simp
qed

lemma exec_work: "remaining_work (exec env a s) \<le> remaining_work s"
  by (simp add: exec_def step_work split: option.splits)

lemma exec_length: "length (workers (exec env a s)) = length (workers s)"
  by (simp add: exec_def step_length split: option.splits)

lemma exec_exited:
  "i < length (workers s) \<Longrightarrow> is_exited (workers s ! i) \<Longrightarrow> is_exited (workers (exec env a s) ! i)"
  by (simp add: exec_def step_exited split: option.splits)

lemma run_Nil [simp]: "run env [] s = s"
  by (simp add: run_def)

lemma run_Cons [simp]: "run env (a # sched) s = run env sched (exec env a s)"
  by (simp add: run_def)

lemma run_append: "run env (xs @ ys) s = run env ys (run env xs s)"
  by (simp add: run_def)

lemma run_length: "length (workers (run env sched s)) = length (workers s)"
  by (induction sched arbitrary: s) (simp_all add: exec_length)

lemma run_exited:
  "i < length (workers s) \<Longrightarrow> is_exited (workers s ! i) \<Longrightarrow>
     is_exited (workers (run env sched s) ! i)"
  by (induction sched arbitrary: s) (simp_all add: exec_length exec_exited)

text \<open>
  A worker that has not left its loop has moved every time it was named, and each of its
  moves reduced the remaining work.
\<close>

lemma run_work_bound:
  "i < length (workers s) \<Longrightarrow> \<not> is_exited (workers (run env sched s) ! i) \<Longrightarrow>
     count_list sched (Worker i) + remaining_work (run env sched s) \<le> remaining_work s"
proof (induction sched arbitrary: s)
  case Nil
  then show ?case by simp
next
  case (Cons a sched)
  from Cons.prems have i': "i < length (workers (exec env a s))"
    by (simp add: exec_length)
  from Cons.prems have ne: "\<not> is_exited (workers (run env sched (exec env a s)) ! i)"
    by simp
  note ih = Cons.IH [OF i' ne]
  show ?case
  proof (cases "a = Worker i")
    case False
    with ih exec_work [of env a s] show ?thesis by simp
  next
    case True
    have live: "\<not> is_exited (workers s ! i)"
    proof
      assume "is_exited (workers s ! i)"
      from exec_exited [OF Cons.prems(1) this, of env a]
      have "is_exited (workers (exec env a s) ! i)" .
      from run_exited [OF i' this, of env sched] ne show False by simp
    qed
    from worker_step_enabled [OF Cons.prems(1) live, of env] obtain s' where
      st: "worker_step env i s = Some s'" by blast
    from worker_step_decreases [OF st] st True
    have "remaining_work (exec env a s) < remaining_work s"
      by (simp add: exec_def step_def)
    with ih True show ?thesis by simp
  qed
qed

lemma worker_terminates:
  assumes "i < length (workers s)" and "remaining_work s < count_list sched (Worker i)"
  shows "is_exited (workers (run env sched s) ! i)"
proof (rule ccontr)
  assume "\<not> is_exited (workers (run env sched s) ! i)"
  from run_work_bound [OF assms(1) this] assms(2) show False by simp
qed

section \<open>What a worker step does to the product queue\<close>

lemma worker_get_empty:
  "queue (product_url_queue s) = [] \<Longrightarrow> worker_get i s = (Exited ByTimeout, s)"
  by (simp add: worker_get_def get_def worker_except_Empty)

lemma worker_get_sentinel:
  assumes "queue (product_url_queue s) = None # rest"
    and "0 < unfinished_tasks (product_url_queue s)"
  shows "fst (worker_get i s) = Exited BySentinel \<and>
     unfinished_tasks (product_url_queue (snd (worker_get i s))) =
       unfinished_tasks (product_url_queue s) - 1 \<and>
     events (snd (worker_get i s)) = events s @ [ProductDone (Suc i) None]"
  using assms by (simp add: worker_get_def get_def product_task_done_def task_done_def)

lemma worker_get_product:
  assumes "queue (product_url_queue s) = Some p # rest"
  shows "fst (worker_get i s) = Holding p \<and>
     unfinished_tasks (product_url_queue (snd (worker_get i s))) =
       unfinished_tasks (product_url_queue s) \<and>
     events (snd (worker_get i s)) = events s"
  using assms by (simp add: worker_get_def get_def)

lemma product_task_done_ok:
  "0 < unfinished_tasks (product_url_queue s) \<Longrightarrow>
     product_task_done i item s =
       (None, emit [ProductDone (Suc i) item]
          (s\<lparr>product_url_queue := (product_url_queue s)
               \<lparr>unfinished_tasks := unfinished_tasks (product_url_queue s) - 1\<rparr>\<rparr>))"
  by (simp add: product_task_done_def task_done_def)

text \<open>
  With a product in hand the count is positive, and the worker either leaves on an
  \<open>Empty\<close>, changing nothing, or marks the product done after a warning, an error or
  the put of one record, and goes on.
\<close>

lemma worker_process_effect:
  assumes "0 < unfinished_tasks (product_url_queue s)"
  shows "(fst (worker_process env i p s) = Exited (ByEmpty p) \<and>
          unfinished_tasks (product_url_queue (snd (worker_process env i p s))) =
            unfinished_tasks (product_url_queue s) \<and>
          data_to_write_queue (snd (worker_process env i p s)) = data_to_write_queue s \<and>
          events (snd (worker_process env i p s)) = events s) \<or>
         (fst (worker_process env i p s) = Idle \<and>
          unfinished_tasks (product_url_queue (snd (worker_process env i p s))) =
            unfinished_tasks (product_url_queue s) - 1 \<and>
          (\<exists>ev. events (snd (worker_process env i p s)) =
                  events s @ ev @ [ProductDone (Suc i) (Some p)] \<and>
             (((ev = [LogError] \<or> ev = [LogWarning]) \<and>
               data_to_write_queue (snd (worker_process env i p s)) = data_to_write_queue s) \<or>
              (\<exists>r. ev = [PutRecord (Suc i) r] \<and>
                 data_to_write_queue (snd (worker_process env i p s)) =
                   put (Some r) (data_to_write_queue s)))))"
  using assms
  by (auto simp: worker_process_def worker_try_def worker_except_def put_record_def
      product_task_done_ok split: sum.splits option.splits)

section \<open>The completion count is exact\<close>

lemma length_taken:
  "length (taken s) = sum_list (map (\<lambda>w. length (in_hand w)) (workers s))"
  by (simp add: taken_def length_concat comp_def)

lemma set_concat_map_update:
  "i < length ws \<Longrightarrow>
     set (concat (map f (ws[i := w]))) \<union> set (f (ws ! i)) = set (concat (map f ws)) \<union> set (f w)"
proof (induction ws arbitrary: i)
  case Nil
  then show ?case by simp
next
  case (Cons a ws)
  show ?case
  proof (cases i)
    case 0
    then show ?thesis by auto
  next
    case (Suc j)
    with Cons.prems have "j < length ws" by simp
    from Cons.IH [OF this] Suc show ?thesis by auto
  qed
qed

lemma taken_update_length:
  assumes "i < length (workers s)"
  shows "length (taken (t\<lparr>workers := (workers s)[i := w]\<rparr>)) + length (in_hand (workers s ! i)) =
     length (taken s) + length (in_hand w)"
  using sum_list_map_update [OF assms, of "\<lambda>w. length (in_hand w)" w]
  by (simp add: length_taken)

lemma taken_update_set:
  assumes "i < length (workers s)"
  shows "set (taken (t\<lparr>workers := (workers s)[i := w]\<rparr>)) \<union> set (in_hand (workers s ! i)) =
     set (taken s) \<union> set (in_hand w)"
  using set_concat_map_update [OF assms, of in_hand w]
  by (simp add: taken_def)

lemma in_hand_update_taken:
  assumes "i < length (workers s)"
  shows "set (in_hand w) \<subseteq> set (taken (t\<lparr>workers := (workers s)[i := w]\<rparr>))"
proof -
  from assms have "w \<in> set ((workers s)[i := w])" by (simp add: set_update_memI)
  then show ?thesis by (auto simp: taken_def)
qed

lemma in_hand_le_taken:
  assumes "i < length (workers s)"
  shows "length (in_hand (workers s ! i)) \<le> length (taken s)"
proof -
  have "workers s ! i \<in> set (workers s)" using assms by simp
  then have "length (in_hand (workers s ! i)) \<le> sum_list (map (\<lambda>w. length (in_hand w)) (workers s))"
    by (induction "workers s") (auto simp: member_le_sum_list)
  then show ?thesis by (simp add: length_taken)
qed

lemma not_error_update:
  "Exited ByError \<notin> set ws \<Longrightarrow> w \<noteq> Exited ByError \<Longrightarrow> Exited ByError \<notin> set (ws[i := w])"
  using set_update_subset_insert [of ws i w] by auto

lemma worker_step_accounted:
  assumes inv: "queue_accounted s" and st: "worker_step env i s = Some s'"
  shows "queue_accounted s'"
proof -
  from st have i: "i < length (workers s)"
    by (simp add: worker_step_def split: if_splits)
  from inv have cnt: "unfinished_tasks (product_url_queue s) =
      length (queue (product_url_queue s)) + length (taken s)"
    and ne: "Exited ByError \<notin> set (workers s)"
    by (simp_all add: queue_accounted_def)
  show ?thesis
  proof (cases "workers s ! i")
    case Idle
    from st i Idle have s': "s' = (snd (worker_get i s))\<lparr>workers := (workers s)[i := fst (worker_get i s)]\<rparr>"
      by (simp add: worker_step_def set_worker_def)
    from taken_update_length [OF i, where t = "snd (worker_get i s)" and w = "fst (worker_get i s)"] Idle s'
    have tk: "length (taken s') = length (taken s) + length (in_hand (fst (worker_get i s)))"
      by simp
    show ?thesis
    proof (cases "queue (product_url_queue s)")
      case Nil
      from worker_get_empty [OF Nil, of i] s' tk cnt ne Nil show ?thesis
        by (simp add: queue_accounted_def not_error_update)
    next
      case (Cons x rest)
      show ?thesis
      proof (cases x)
        case None
        from cnt Cons have pos: "0 < unfinished_tasks (product_url_queue s)" by simp
        from Cons None have q: "queue (product_url_queue s) = None # rest" by simp
        from worker_get_sentinel [OF q pos, of i] s' tk cnt ne q show ?thesis
          by (simp add: queue_accounted_def not_error_update)
      next
        case (Some p)
        from Cons Some have q: "queue (product_url_queue s) = Some p # rest" by simp
        from worker_get_product [OF q, of i] s' tk cnt ne q show ?thesis
          by (simp add: queue_accounted_def not_error_update)
      qed
    qed
  next
    case (Holding p)
    from st i Holding have s': "s' = (snd (worker_process env i p s))
        \<lparr>workers := (workers s)[i := fst (worker_process env i p s)]\<rparr>"
      by (simp add: worker_step_def set_worker_def)
    from taken_update_length [OF i, where t = "snd (worker_process env i p s)"
        and w = "fst (worker_process env i p s)"] Holding s'
    have tk: "length (taken s') + 1 =
        length (taken s) + length (in_hand (fst (worker_process env i p s)))"
      by simp
    from in_hand_le_taken [OF i] Holding have t1: "1 \<le> length (taken s)" by simp
    with cnt have pos: "0 < unfinished_tasks (product_url_queue s)" by linarith
    from worker_process_effect [OF pos, of env i p] show ?thesis
    proof
      assume a: "fst (worker_process env i p s) = Exited (ByEmpty p) \<and>
          unfinished_tasks (product_url_queue (snd (worker_process env i p s))) =
            unfinished_tasks (product_url_queue s) \<and>
          data_to_write_queue (snd (worker_process env i p s)) = data_to_write_queue s \<and>
          events (snd (worker_process env i p s)) = events s"
      with s' tk cnt ne show ?thesis
        by (simp add: queue_accounted_def not_error_update)
    next
      assume a: "fst (worker_process env i p s) = Idle \<and>
          unfinished_tasks (product_url_queue (snd (worker_process env i p s))) =
            unfinished_tasks (product_url_queue s) - 1 \<and>
          (\<exists>ev. events (snd (worker_process env i p s)) =
                  events s @ ev @ [ProductDone (Suc i) (Some p)] \<and>
             (((ev = [LogError] \<or> ev = [LogWarning]) \<and>
               data_to_write_queue (snd (worker_process env i p s)) = data_to_write_queue s) \<or>
              (\<exists>r. ev = [PutRecord (Suc i) r] \<and>
                 data_to_write_queue (snd (worker_process env i p s)) =
                   put (Some r) (data_to_write_queue s))))"
      with s' tk t1 cnt ne show ?thesis
        by (simp add: queue_accounted_def not_error_update)
    qed
  next
    case (Exited r)
    with st i show ?thesis by (simp add: worker_step_def)
  qed
qed

section \<open>Events of the steps\<close>

lemma derived_append [simp]:
  "enqueued_products (ev @ new) = enqueued_products ev @ enqueued_products new"
  "done_products (ev @ new) = done_products ev @ done_products new"
  "record_puts (ev @ new) = record_puts ev @ record_puts new"
  by (simp_all add: enqueued_products_def done_products_def record_puts_def)

lemma derived_Nil [simp]:
  "enqueued_products [] = []" "done_products [] = []" "record_puts [] = []" "items_of [] = []"
  by (simp_all add: enqueued_products_def done_products_def record_puts_def items_of_def)

lemma derived_Cons [simp]:
  "enqueued_products (e # ev) = enqueued_of e @ enqueued_products ev"
  "done_products (e # ev) = done_of e @ done_products ev"
  "record_puts (e # ev) = record_put_of e @ record_puts ev"
  "items_of (None # xs) = items_of xs"
  "items_of (Some p # xs) = p # items_of xs"
  by (simp_all add: enqueued_products_def done_products_def record_puts_def items_of_def)

lemma items_of_append [simp]: "items_of (xs @ ys) = items_of xs @ items_of ys"
  by (simp add: items_of_def)

lemma worker_events_quiet:
  "list_all worker_event new \<Longrightarrow>
     enqueued_products new = [] \<and> PutProduct x \<notin> set new \<and> PutRecordSentinel \<notin> set new \<and>
     count_list new (PutProduct x) = 0 \<and> count_list new PutRecordSentinel = 0"
proof (induction new)
  case Nil
  show ?case by simp
next
  case (Cons e new)
  then show ?case by (cases e) simp_all
qed

lemma writer_events_quiet:
  "list_all writer_event new \<Longrightarrow>
     enqueued_products new = [] \<and> done_products new = [] \<and> record_puts new = [] \<and>
     PutProduct x \<notin> set new \<and> PutRecordSentinel \<notin> set new \<and>
     count_list new (PutProduct x) = 0 \<and> count_list new PutRecordSentinel = 0"
proof (induction new)
  case Nil
  show ?case by simp
next
  case (Cons e new)
  then show ?case by (cases e) simp_all
qed

lemma worker_step_events:
  assumes inv: "queue_accounted s" and st: "worker_step env i s = Some s'"
  shows "\<exists>new. events s' = events s @ new \<and> list_all worker_event new"
proof -
  from st have i: "i < length (workers s)"
    by (simp add: worker_step_def split: if_splits)
  from inv have cnt: "unfinished_tasks (product_url_queue s) =
      length (queue (product_url_queue s)) + length (taken s)"
    by (simp add: queue_accounted_def)
  show ?thesis
  proof (cases "workers s ! i")
    case Idle
    from st i Idle have s': "events s' = events (snd (worker_get i s))"
      by (auto simp: worker_step_def set_worker_def)
    show ?thesis
    proof (cases "queue (product_url_queue s)")
      case Nil
      from worker_get_empty [OF Nil, of i] s' show ?thesis by simp
    next
      case (Cons x rest)
      show ?thesis
      proof (cases x)
        case None
        from cnt Cons have pos: "0 < unfinished_tasks (product_url_queue s)" by simp
        from Cons None have q: "queue (product_url_queue s) = None # rest" by simp
        from worker_get_sentinel [OF q pos, of i] s' show ?thesis by simp
      next
        case (Some p)
        from Cons Some have q: "queue (product_url_queue s) = Some p # rest" by simp
        from worker_get_product [OF q, of i] s' show ?thesis by simp
      qed
    qed
  next
    case (Holding p)
    from st i Holding have s': "events s' = events (snd (worker_process env i p s))"
      by (auto simp: worker_step_def set_worker_def)
    from in_hand_le_taken [OF i] Holding have "1 \<le> length (taken s)" by simp
    with cnt have pos: "0 < unfinished_tasks (product_url_queue s)" by linarith
    from worker_process_effect [OF pos, of env i p] s' show ?thesis by auto
  next
    case (Exited r)
    with st i show ?thesis by (simp add: worker_step_def)
  qed
qed

lemma worker_step_lost:
  assumes inv: "queue_accounted s" and nl: "nothing_lost s"
    and st: "worker_step env i s = Some s'"
  shows "nothing_lost s'"
proof -
  from st have i: "i < length (workers s)"
    by (simp add: worker_step_def split: if_splits)
  from inv have cnt: "unfinished_tasks (product_url_queue s) =
      length (queue (product_url_queue s)) + length (taken s)"
    by (simp add: queue_accounted_def)
  note nl' = nl [unfolded nothing_lost_def]
  show ?thesis
  proof (cases "workers s ! i")
    case Idle
    from st i Idle have s': "s' = (snd (worker_get i s))\<lparr>workers := (workers s)[i := fst (worker_get i s)]\<rparr>"
      by (simp add: worker_step_def set_worker_def)
    from taken_update_set [OF i, where t = "snd (worker_get i s)" and w = "fst (worker_get i s)"]
      Idle s'
    have tk: "set (taken s') = set (taken s) \<union> set (in_hand (fst (worker_get i s)))"
      by simp
    show ?thesis
    proof (cases "queue (product_url_queue s)")
      case Nil
      from worker_get_empty [OF Nil, of i] s' tk nl' Nil show ?thesis
        by (simp add: nothing_lost_def)
    next
      case (Cons x rest)
      show ?thesis
      proof (cases x)
        case None
        from cnt Cons have pos: "0 < unfinished_tasks (product_url_queue s)" by simp
        from Cons None have q: "queue (product_url_queue s) = None # rest" by simp
        from worker_get_sentinel [OF q pos, of i] s' tk nl' q show ?thesis
          by (simp add: nothing_lost_def)
      next
        case (Some p)
        from Cons Some have q: "queue (product_url_queue s) = Some p # rest" by simp
        from worker_get_product [OF q, of i] s' tk nl' q show ?thesis
          by (auto simp: nothing_lost_def)
      qed
    qed
  next
    case (Holding p)
    from st i Holding have s': "s' = (snd (worker_process env i p s))
        \<lparr>workers := (workers s)[i := fst (worker_process env i p s)]\<rparr>"
      by (simp add: worker_step_def set_worker_def)
    from taken_update_set [OF i, where t = "snd (worker_process env i p s)"
        and w = "fst (worker_process env i p s)"] Holding s'
    have tk: "insert p (set (taken s')) =
        set (taken s) \<union> set (in_hand (fst (worker_process env i p s)))"
      by simp
    from in_hand_le_taken [OF i] Holding have "1 \<le> length (taken s)" by simp
    with cnt have pos: "0 < unfinished_tasks (product_url_queue s)" by linarith
    from worker_process_effect [OF pos, of env i p] show ?thesis
    proof
      assume a: "fst (worker_process env i p s) = Exited (ByEmpty p) \<and>
          unfinished_tasks (product_url_queue (snd (worker_process env i p s))) =
            unfinished_tasks (product_url_queue s) \<and>
          data_to_write_queue (snd (worker_process env i p s)) = data_to_write_queue s \<and>
          events (snd (worker_process env i p s)) = events s"
      moreover from in_hand_update_taken [OF i, where t = "snd (worker_process env i p s)"
          and w = "fst (worker_process env i p s)"] s' a
      have "p \<in> set (taken s')" by simp
      ultimately have "set (taken s) \<subseteq> set (taken s')" using tk by auto
      with a s' nl' show ?thesis
        by (auto simp: nothing_lost_def)
    next
      assume a: "fst (worker_process env i p s) = Idle \<and>
          unfinished_tasks (product_url_queue (snd (worker_process env i p s))) =
            unfinished_tasks (product_url_queue s) - 1 \<and>
          (\<exists>ev. events (snd (worker_process env i p s)) =
                  events s @ ev @ [ProductDone (Suc i) (Some p)] \<and>
             (((ev = [LogError] \<or> ev = [LogWarning]) \<and>
               data_to_write_queue (snd (worker_process env i p s)) = data_to_write_queue s) \<or>
              (\<exists>r. ev = [PutRecord (Suc i) r] \<and>
                 data_to_write_queue (snd (worker_process env i p s)) =
                   put (Some r) (data_to_write_queue s))))"
      then obtain ev where ev: "events s' = events s @ ev @ [ProductDone (Suc i) (Some p)]"
        and q: "enqueued_products ev = []"
        using s' by auto
      from a tk have t: "set (taken s) \<subseteq> insert p (set (taken s'))" by auto
      have d: "p \<in> set (done_products (events s'))"
        by (simp add: ev)
      have d': "set (done_products (events s)) \<subseteq> set (done_products (events s'))"
        by (auto simp: ev)
      have e: "enqueued_products (events s') = enqueued_products (events s)"
        by (simp add: ev q)
      have qq: "queue (product_url_queue s') = queue (product_url_queue s)"
        by (simp add: s')
      from nl' t d d' show ?thesis
        unfolding nothing_lost_def e qq by blast
    qed
  next
    case (Exited r)
    with st i show ?thesis by (simp add: worker_step_def)
  qed
qed

section \<open>The order of the handshake is kept by every step\<close>

lemma all_done_mono:
  "events s' = events s @ new \<Longrightarrow> enqueued_products new = [] \<Longrightarrow> all_done s \<Longrightarrow> all_done s'"
  by (auto simp: all_done_def)

lemma record_task_done_events:
  "record_task_done item s = (r, s') \<Longrightarrow>
     events s' = events s \<or> events s' = events s @ [RecordDone item]"
  by (auto simp: record_task_done_def task_done_def split: if_splits)

lemma writer_insert_events:
  "events (writer_insert env r s) = events s \<or>
   events (writer_insert env r s) = events s @ [LogError]"
  by (simp add: writer_insert_def split: prod.splits option.splits)

lemma writer_iteration_events:
  assumes "writer_iteration env s = (sig, s')"
  shows "\<exists>new. events s' = events s @ new \<and> list_all writer_event new"
proof (cases "queue (data_to_write_queue s)")
  case Nil
  with assms show ?thesis by (simp add: writer_iteration_def get_def)
next
  case (Cons x rest)
  show ?thesis
  proof (cases x)
    case None
    let ?s1 = "s\<lparr>data_to_write_queue := (data_to_write_queue s)\<lparr>queue := rest\<rparr>\<rparr>"
    obtain r s2 where t: "record_task_done None ?s1 = (r, s2)"
      by (cases "record_task_done None ?s1")
    with assms Cons None have "s' = s2"
      by (auto simp: writer_iteration_def get_def split: option.splits)
    with record_task_done_events [OF t] show ?thesis by auto
  next
    case (Some rec)
    let ?s1 = "writer_insert env rec
        (s\<lparr>data_to_write_queue := (data_to_write_queue s)\<lparr>queue := rest\<rparr>\<rparr>)"
    obtain r s2 where t: "record_task_done (Some rec) ?s1 = (r, s2)"
      by (cases "record_task_done (Some rec) ?s1")
    with assms Cons Some have "s' = s2"
      by (auto simp: writer_iteration_def get_def split: option.splits)
    with record_task_done_events [OF t]
      writer_insert_events [of env rec
        "s\<lparr>data_to_write_queue := (data_to_write_queue s)\<lparr>queue := rest\<rparr>\<rparr>"]
    show ?thesis by auto
  qed
qed

lemma writer_step_events:
  assumes "writer_step env s = Some s'"
  shows "\<exists>new. events s' = events s @ new \<and> list_all writer_event new"
proof (cases "writer s")
  case NotStarted
  with assms show ?thesis by (simp add: writer_step_def)
next
  case Connecting
  with assms show ?thesis
    by (auto simp: writer_step_def split: prod.splits option.splits)
next
  case Writing
  obtain sig s1 where it: "writer_iteration env s = (sig, s1)"
    by (cases "writer_iteration env s")
  from writer_iteration_events [OF it] obtain new where
    n: "events s1 = events s @ new" "list_all writer_event new" by blast
  from assms Writing it have "events s' = events s1 \<or> events s' = events s1 @ [LogCritical]"
    by (cases sig) (auto simp: writer_step_def)
  with n show ?thesis by auto
next
  case WriterExited
  with assms show ?thesis by (simp add: writer_step_def)
qed

lemma worker_step_not_exited:
  "worker_step env i s = Some s' \<Longrightarrow> \<not> list_all is_exited (workers s)"
  by (auto simp: worker_step_def list_all_length is_exited_def
      split: if_splits worker_state.splits)

lemma worker_step_handshake:
  assumes inv: "queue_accounted s" and h: "handshake_order s"
    and st: "worker_step env i s = Some s'"
  shows "handshake_order s'"
proof -
  from worker_step_events [OF inv st] obtain new where
    ev: "events s' = events s @ new" and w: "list_all worker_event new" by blast
  note q = worker_events_quiet [OF w]
  from q have q1: "enqueued_products new = []"
    and q2: "PutProduct None \<notin> set new" and q3: "PutRecordSentinel \<notin> set new"
    and q4: "count_list new (PutProduct None) = 0" and q5: "count_list new PutRecordSentinel = 0"
    by blast+
  note o = worker_step_orchestrator [OF st]
  note l = worker_step_length [OF st]
  note ne = worker_step_not_exited [OF st]
  have ad: "all_done s \<Longrightarrow> all_done s'" by (rule all_done_mono [OF ev q1])
  from h ne have ns: "PutRecordSentinel \<notin> set (events s)"
    by (auto simp: handshake_order_def)
  from h have c: "case orchestrator s of
         Joining \<Rightarrow>
           PutProduct None \<notin> set (events s) \<and> PutRecordSentinel \<notin> set (events s)
       | Signalling k \<Rightarrow>
           all_done s \<and> PutRecordSentinel \<notin> set (events s) \<and>
           count_list (events s) (PutProduct None) + k = length (workers s)
       | WaitingWorkers \<Rightarrow>
           PutRecordSentinel \<notin> set (events s) \<and>
           count_list (events s) (PutProduct None) \<le> length (workers s)
       | _ \<Rightarrow> count_list (events s) (PutProduct None) \<le> length (workers s)"
    and pd: "PutProduct None \<in> set (events s) \<longrightarrow> all_done s"
    by (simp_all add: handshake_order_def)
  have 1: "PutProduct None \<in> set (events s') \<longrightarrow> all_done s'"
    using pd ad q2 by (auto simp: ev)
  have 2: "PutRecordSentinel \<notin> set (events s')"
    using ns q3 by (simp add: ev)
  have 3: "case orchestrator s' of
         Joining \<Rightarrow>
           PutProduct None \<notin> set (events s') \<and> PutRecordSentinel \<notin> set (events s')
       | Signalling k \<Rightarrow>
           all_done s' \<and> PutRecordSentinel \<notin> set (events s') \<and>
           count_list (events s') (PutProduct None) + k = length (workers s')
       | WaitingWorkers \<Rightarrow>
           PutRecordSentinel \<notin> set (events s') \<and>
           count_list (events s') (PutProduct None) \<le> length (workers s')
       | _ \<Rightarrow> count_list (events s') (PutProduct None) \<le> length (workers s')"
    using c ad q2 q3 q4 o l
    by (cases "orchestrator s") (simp_all add: ev)
  from 1 2 3 show ?thesis by (simp add: handshake_order_def)
qed

lemma writer_step_handshake:
  assumes h: "handshake_order s" and st: "writer_step env s = Some s'"
  shows "handshake_order s'"
proof -
  from writer_step_events [OF st] obtain new where
    ev: "events s' = events s @ new" and w: "list_all writer_event new" by blast
  note q = writer_events_quiet [OF w]
  from q have q1: "enqueued_products new = []"
    and q2: "PutProduct None \<notin> set new" and q3: "PutRecordSentinel \<notin> set new"
    and q4: "count_list new (PutProduct None) = 0" and q5: "count_list new PutRecordSentinel = 0"
    by blast+
  note f = writer_step_frame [OF st]
  have ad: "all_done s \<Longrightarrow> all_done s'" by (rule all_done_mono [OF ev q1])
  from h have c: "case orchestrator s of
         Joining \<Rightarrow>
           PutProduct None \<notin> set (events s) \<and> PutRecordSentinel \<notin> set (events s)
       | Signalling k \<Rightarrow>
           all_done s \<and> PutRecordSentinel \<notin> set (events s) \<and>
           count_list (events s) (PutProduct None) + k = length (workers s)
       | WaitingWorkers \<Rightarrow>
           PutRecordSentinel \<notin> set (events s) \<and>
           count_list (events s) (PutProduct None) \<le> length (workers s)
       | _ \<Rightarrow> count_list (events s) (PutProduct None) \<le> length (workers s)"
    and pd: "PutProduct None \<in> set (events s) \<longrightarrow> all_done s"
    and ps: "PutRecordSentinel \<in> set (events s) \<longrightarrow>
         list_all is_exited (workers s) \<and> count_list (events s) PutRecordSentinel = 1"
    by (simp_all add: handshake_order_def)
  have 1: "PutProduct None \<in> set (events s') \<longrightarrow> all_done s'"
    using pd ad q2 by (auto simp: ev)
  have 2: "PutRecordSentinel \<in> set (events s') \<longrightarrow>
         list_all is_exited (workers s') \<and> count_list (events s') PutRecordSentinel = 1"
    using ps q3 q5 f by (simp add: ev)
  have 3: "case orchestrator s' of
         Joining \<Rightarrow>
           PutProduct None \<notin> set (events s') \<and> PutRecordSentinel \<notin> set (events s')
       | Signalling k \<Rightarrow>
           all_done s' \<and> PutRecordSentinel \<notin> set (events s') \<and>
           count_list (events s') (PutProduct None) + k = length (workers s')
       | WaitingWorkers \<Rightarrow>
           PutRecordSentinel \<notin> set (events s') \<and>
           count_list (events s') (PutProduct None) \<le> length (workers s')
       | _ \<Rightarrow> count_list (events s') (PutProduct None) \<le> length (workers s')"
    using c ad q2 q3 q4 f
    by (cases "orchestrator s") (simp_all add: ev)
  from 1 2 3 show ?thesis by (simp add: handshake_order_def)
qed

lemma writer_step_accounted:
  "queue_accounted s \<Longrightarrow> writer_step env s = Some s' \<Longrightarrow> queue_accounted s'"
  by (auto simp: queue_accounted_def taken_def dest!: writer_step_frame)

lemma writer_step_lost:
  assumes nl: "nothing_lost s" and st: "writer_step env s = Some s'"
  shows "nothing_lost s'"
proof -
  from writer_step_events [OF st] obtain new where
    ev: "events s' = events s @ new" and w: "list_all writer_event new" by blast
  from writer_events_quiet [OF w] have "enqueued_products new = []" "done_products new = []"
    by blast+
  with nl writer_step_frame [OF st] show ?thesis
    by (simp add: nothing_lost_def ev taken_def)
qed

lemma orchestrator_step_accounted:
  "queue_accounted s \<Longrightarrow> orchestrator_step s = Some s' \<Longrightarrow> queue_accounted s'"
  by (auto simp: queue_accounted_def taken_def orchestrator_step_def put_def
      split: orchestrator_state.splits nat.splits if_splits)

lemma orchestrator_step_lost:
  "nothing_lost s \<Longrightarrow> orchestrator_step s = Some s' \<Longrightarrow> nothing_lost s'"
  by (auto simp: nothing_lost_def taken_def orchestrator_step_def put_def
      split: orchestrator_state.splits nat.splits if_splits)

lemma join_all_done:
  assumes "queue_accounted s" and "nothing_lost s" and "join_returns (product_url_queue s)"
  shows "all_done s"
proof -
  from assms(1,3) have "queue (product_url_queue s) = []" "taken s = []"
    by (simp_all add: queue_accounted_def join_returns_def)
  with assms(2) show ?thesis by (simp add: nothing_lost_def all_done_def)
qed

lemma orchestrator_step_handshake:
  assumes inv: "queue_accounted s" and nl: "nothing_lost s" and h: "handshake_order s"
    and st: "orchestrator_step s = Some s'"
  shows "handshake_order s'"
proof (cases "orchestrator s")
  case Joining
  with st have j: "join_returns (product_url_queue s)"
    and s': "s' = s\<lparr>orchestrator := Signalling (length (workers s))\<rparr>"
    by (simp_all add: orchestrator_step_def split: if_splits)
  from join_all_done [OF inv nl j] have "all_done s" .
  with h Joining s' show ?thesis
    by (simp add: handshake_order_def all_done_def)
next
  case (Signalling k)
  show ?thesis
  proof (cases k)
    case 0
    with st Signalling have "s' = s\<lparr>orchestrator := WaitingWorkers\<rparr>"
      by (simp add: orchestrator_step_def)
    with h Signalling 0 show ?thesis
      by (simp add: handshake_order_def all_done_def)
  next
    case (Suc k')
    with st Signalling have "s' = emit [PutProduct None]
        (s\<lparr>product_url_queue := put None (product_url_queue s), orchestrator := Signalling k'\<rparr>)"
      by (simp add: orchestrator_step_def)
    with h Signalling Suc show ?thesis
      by (simp add: handshake_order_def all_done_def)
  qed
next
  case WaitingWorkers
  with st have e: "list_all is_exited (workers s)"
    and s': "s' = emit [PutRecordSentinel]
        (s\<lparr>data_to_write_queue := put None (data_to_write_queue s),
           orchestrator := JoiningWriter\<rparr>)"
    by (simp_all add: orchestrator_step_def split: if_splits)
  with h WaitingWorkers show ?thesis
    by (simp add: handshake_order_def all_done_def)
next
  case JoiningWriter
  with st have "s' = emit (WriterJoin 300 (writer s \<noteq> WriterExited) #
                      (if writer s \<noteq> WriterExited then [LogError] else []))
            (s\<lparr>orchestrator := Teardown\<rparr>)"
    by (simp add: orchestrator_step_def)
  with h JoiningWriter show ?thesis
    by (simp add: handshake_order_def all_done_def)
next
  case Teardown
  with st have "s' = emit [CloseSession, TimingLog] (s\<lparr>orchestrator := Finished\<rparr>)"
    by (simp add: orchestrator_step_def)
  with h Teardown show ?thesis
    by (simp add: handshake_order_def all_done_def)
next
  case Finished
  with st show ?thesis by (simp add: orchestrator_step_def)
qed

text \<open>The three invariants together are kept by every step and so by every schedule.\<close>

lemma step_invariant:
  assumes "queue_accounted s \<and> nothing_lost s \<and> handshake_order s"
    and "step env a s = Some s'"
  shows "queue_accounted s' \<and> nothing_lost s' \<and> handshake_order s'"
proof (cases a)
  case (Worker i)
  with assms(2) have st: "worker_step env i s = Some s'" by (simp add: step_def)
  from assms(1) have a: "queue_accounted s" and n: "nothing_lost s" and h: "handshake_order s"
    by simp_all
  from worker_step_accounted [OF a st] worker_step_lost [OF a n st]
    worker_step_handshake [OF a h st]
  show ?thesis by simp
next
  case Writer
  with assms(2) have st: "writer_step env s = Some s'" by (simp add: step_def)
  from assms(1) have a: "queue_accounted s" and n: "nothing_lost s" and h: "handshake_order s"
    by simp_all
  from writer_step_accounted [OF a st] writer_step_lost [OF n st]
    writer_step_handshake [OF h st]
  show ?thesis by simp
next
  case Orchestrator
  with assms(2) have st: "orchestrator_step s = Some s'" by (simp add: step_def)
  from assms(1) have a: "queue_accounted s" and n: "nothing_lost s" and h: "handshake_order s"
    by simp_all
  from orchestrator_step_accounted [OF a st] orchestrator_step_lost [OF n st]
    orchestrator_step_handshake [OF a n h st]
  show ?thesis by simp
qed

lemma exec_invariant:
  assumes "queue_accounted s \<and> nothing_lost s \<and> handshake_order s"
  shows "queue_accounted (exec env a s) \<and> nothing_lost (exec env a s) \<and>
     handshake_order (exec env a s)"
proof (cases "step env a s")
  case None
  with assms show ?thesis by (simp add: exec_def)
next
  case (Some s')
  from step_invariant [OF assms Some] Some show ?thesis by (simp add: exec_def)
qed

lemma run_invariant:
  "queue_accounted s \<and> nothing_lost s \<and> handshake_order s \<Longrightarrow>
     queue_accounted (run env sched s) \<and> nothing_lost (run env sched s) \<and>
     handshake_order (run env sched s)"
proof (induction sched arbitrary: s)
  case Nil
  then show ?case by simp
next
  case (Cons a sched)
  from Cons.IH [OF exec_invariant [OF Cons.prems]] show ?case by simp
qed

section \<open>The invariants hold when the threads start\<close>

lemma fold_put:
  "fold put xs q = \<lparr>queue = queue q @ xs, unfinished_tasks = unfinished_tasks q + length xs\<rparr>"
  by (induction xs arbitrary: q) (simp_all add: put_def)

lemma fold_put_Some:
  "fold (\<lambda>p. put (Some p)) ps new_queue =
     \<lparr>queue = map Some ps, unfinished_tasks = length ps\<rparr>"
proof -
  have "fold (\<lambda>p. put (Some p)) ps new_queue = fold put (map Some ps) new_queue"
    by (simp add: fold_map comp_def)
  then show ?thesis by (simp add: fold_put new_queue_def)
qed

lemma items_of_map_Some [simp]: "items_of (map Some ps) = ps"
  by (induction ps) simp_all

lemma items_of_replicate_None [simp]: "items_of (replicate n None) = []"
  by (induction n) simp_all

lemma enqueued_products_map_put [simp]:
  "enqueued_products (map (\<lambda>p. PutProduct (Some p)) ps) = ps"
  by (induction ps) simp_all

lemma done_products_map_put [simp]:
  "done_products (map (\<lambda>p. PutProduct (Some p)) ps) = []"
  by (induction ps) simp_all

lemma enqueued_products_map_start [simp]:
  "enqueued_products (map (\<lambda>i. StartWorker (Suc i)) is) = []"
  by (induction "is") simp_all

lemma done_products_map_start [simp]:
  "done_products (map (\<lambda>i. StartWorker (Suc i)) is) = []"
  by (induction "is") simp_all

lemma count_list_map_put [simp]:
  "count_list (map (\<lambda>p. PutProduct (Some p)) ps) (PutProduct None) = 0"
  by (induction ps) simp_all

lemma discovery_events_quiet:
  "list_all discovery_event ev \<Longrightarrow>
     enqueued_products ev = [] \<and> done_products ev = [] \<and> record_puts ev = [] \<and>
     (\<forall>x. PutProduct x \<notin> set ev) \<and> PutRecordSentinel \<notin> set ev \<and>
     StartWriter \<notin> set ev \<and> (\<forall>i. StartWorker i \<notin> set ev) \<and>
     count_list ev (PutProduct None) = 0"
proof (induction ev)
  case Nil
  show ?case by simp
next
  case (Cons e ev)
  then show ?case by (cases e) simp_all
qed

lemma get_category_links_events: "list_all discovery_event (snd (get_category_links env))"
  by (simp add: get_category_links_def split: sum.splits option.splits)

lemma product_links_events_pair:
  "product_links env slug es = (r, ev) \<Longrightarrow> list_all discovery_event ev"
proof (induction es arbitrary: r ev)
  case Nil
  then show ?case by simp
next
  case (Cons e es)
  obtain r1 ev1 where rest: "product_links env slug es = (r1, ev1)"
    by (cases "product_links env slug es")
  from Cons.IH [OF rest] have "list_all discovery_event ev1" .
  with Cons.prems rest show ?case
    by (auto split: if_splits sum.splits)
qed

lemma product_links_events: "list_all discovery_event (snd (product_links env slug es))"
  using product_links_events_pair [of env slug es "fst (product_links env slug es)"
      "snd (product_links env slug es)"]
  by simp

lemma scrape_category_pages_events_pair:
  "scrape_category_pages env links = (r, ev) \<Longrightarrow> list_all discovery_event ev"
proof (induction links arbitrary: r ev)
  case Nil
  then show ?case by simp
next
  case (Cons link links)
  obtain r1 ev1 where rest: "scrape_category_pages env links = (r1, ev1)"
    by (cases "scrape_category_pages env links")
  from Cons.IH [OF rest] have ih: "list_all discovery_event ev1" .
  show ?case
  proof (cases "scraper_fetch_page env link (sleep_between_category_pages env)")
    case (Inl e)
    with Cons.prems show ?thesis by auto
  next
    case (Inr t)
    show ?thesis
    proof (cases t)
      case None
      with Cons.prems Inr rest ih show ?thesis by auto
    next
      case (Some tree)
      obtain r2 ev2 where pl: "get_product_links_from_category_page env link tree = (r2, ev2)"
        by (cases "get_product_links_from_category_page env link tree")
      then have "list_all discovery_event ev2"
        by (simp add: get_product_links_from_category_page_def product_links_events_pair)
      with Cons.prems Inr Some rest ih pl show ?thesis
        by (auto split: sum.splits)
    qed
  qed
qed

lemma scrape_category_pages_events:
  "list_all discovery_event (snd (scrape_category_pages env links))"
  using scrape_category_pages_events_pair [of env links "fst (scrape_category_pages env links)"
      "snd (scrape_category_pages env links)"]
  by simp

lemma aborted_invariant:
  assumes "list_all discovery_event ev"
  shows "queue_accounted (aborted d ev) \<and> nothing_lost (aborted d ev) \<and>
     handshake_order (aborted d ev) \<and> sentinels_put (aborted d ev)"
  using discovery_events_quiet [OF assms]
  by (simp add: aborted_def queue_accounted_def nothing_lost_def handshake_order_def
      sentinels_put_def all_done_def taken_def new_queue_def)

lemma taken_no_workers [simp]: "workers s = [] \<Longrightarrow> taken s = []"
  by (simp add: taken_def)

lemma taken_all_idle [simp]: "workers s = replicate n Idle \<Longrightarrow> taken s = []"
  by (induction n arbitrary: s) (simp_all add: taken_def)

lemma start_threads_invariant:
  assumes "list_all discovery_event ev"
  shows "queue_accounted (start_threads env d ev ps) \<and> nothing_lost (start_threads env d ev ps) \<and>
     handshake_order (start_threads env d ev ps) \<and> sentinels_put (start_threads env d ev ps)"
proof -
  note q = discovery_events_quiet [OF assms]
  let ?puts = "map (\<lambda>p. PutProduct (Some p)) ps"
  let ?starts = "map (\<lambda>i. StartWorker (Suc i)) [0 ..< nat (scraper_thread_count env)]"
  have m: "PutProduct None \<notin> set ?starts" "PutRecordSentinel \<notin> set ?starts"
    "PutProduct None \<notin> set ?puts" "PutRecordSentinel \<notin> set ?puts"
    by auto
  have cs: "count_list is' (PutProduct None) = 0" if "PutProduct None \<notin> set is'" for is'
    using that by (simp add: count_list_0_iff)
  note z = cs [OF m(1)] cs [OF m(3)]
  consider (none) "ps = []"
    | (nothreads) "ps \<noteq> []" "scraper_thread_count env \<le> 0"
    | (threads) "ps \<noteq> []" "0 < scraper_thread_count env"
    by fastforce
  then show ?thesis
  proof cases
    case none
    with q show ?thesis
      by (simp add: start_threads_def new_queue_def Let_def queue_accounted_def
          nothing_lost_def handshake_order_def sentinels_put_def all_done_def)
  next
    case nothreads
    with q z m show ?thesis
      by (simp add: start_threads_def fold_put_Some Let_def queue_accounted_def
          nothing_lost_def handshake_order_def sentinels_put_def all_done_def del: set_map)
  next
    case threads
    with q z m show ?thesis
      by (simp add: start_threads_def fold_put_Some Let_def queue_accounted_def
          nothing_lost_def handshake_order_def sentinels_put_def all_done_def del: set_map)
  qed
qed

text \<open>
  \<open>run_scraping\<close> either reaches its \<open>finally\<close> clause with nothing queued, or populates
  the queue and starts the threads; up to there it has emitted discovery events only.
\<close>

lemma run_scraping_start_cases:
  "\<exists>d ev. list_all discovery_event ev \<and>
     (run_scraping_start env = aborted d ev \<or>
      (\<exists>ps. run_scraping_start env = start_threads env d ev ps))"
proof (cases "create_products_table env new_database_manager")
  case (Pair r d)
  show ?thesis
  proof (cases r)
    case (Some e)
    with Pair have "run_scraping_start env = aborted d [LogCritical]"
      by (simp add: run_scraping_start_def)
    moreover have "list_all discovery_event [LogCritical]" by simp
    ultimately show ?thesis by blast
  next
    case None
    obtain r1 ev1 where g: "get_category_links env = (r1, ev1)"
      by (cases "get_category_links env")
    from get_category_links_events [of env] g have e1: "list_all discovery_event ev1" by simp
    show ?thesis
    proof (cases r1)
      case (Inl e)
      with Pair None g have "run_scraping_start env = aborted d (ev1 @ [LogCritical])"
        by (simp add: run_scraping_start_def)
      moreover from e1 have "list_all discovery_event (ev1 @ [LogCritical])" by simp
      ultimately show ?thesis by blast
    next
      case (Inr links)
      show ?thesis
      proof (cases links)
        case Nil
        with Pair None g Inr have "run_scraping_start env = aborted d (ev1 @ [LogError])"
          by (simp add: run_scraping_start_def)
        moreover from e1 have "list_all discovery_event (ev1 @ [LogError])" by simp
        ultimately show ?thesis by blast
      next
        case (Cons link rest)
        obtain r2 ev2 where sc: "scrape_category_pages env (link # rest) = (r2, ev2)"
          by (cases "scrape_category_pages env (link # rest)")
        from scrape_category_pages_events_pair [OF sc] have e2: "list_all discovery_event ev2" .
        show ?thesis
        proof (cases r2)
          case (Inl e)
          with Pair None g Inr Cons sc
          have "run_scraping_start env = aborted d (ev1 @ ev2 @ [LogCritical])"
            by (simp add: run_scraping_start_def del: scrape_category_pages.simps)
          moreover from e1 e2 have "list_all discovery_event (ev1 @ ev2 @ [LogCritical])"
            by simp
          ultimately show ?thesis by blast
        next
          case (Inr ps)
          with Pair None g \<open>r1 = Inr links\<close> Cons sc
          have "run_scraping_start env = start_threads env d (ev1 @ ev2)
              (products_to_queue (test_mode env) (test_product_limit env) ps)"
            by (simp add: run_scraping_start_def del: scrape_category_pages.simps)
          moreover from e1 e2 have "list_all discovery_event (ev1 @ ev2)" by simp
          ultimately show ?thesis by blast
        qed
      qed
    qed
  qed
qed

lemma run_scraping_start_invariant:
  "queue_accounted (run_scraping_start env) \<and> nothing_lost (run_scraping_start env) \<and>
   handshake_order (run_scraping_start env) \<and> sentinels_put (run_scraping_start env)"
  using run_scraping_start_cases [of env] aborted_invariant start_threads_invariant
  by metis

lemma preloaded_invariant:
  "queue_accounted (preloaded ps n) \<and> nothing_lost (preloaded ps n) \<and>
   handshake_order (preloaded ps n)"
proof -
  show ?thesis
    unfolding preloaded_def fold_put
    by (simp add: queue_accounted_def nothing_lost_def handshake_order_def new_queue_def)
qed

section \<open>The completion handshake\<close>
















section \<open>The cases of a worker step\<close>

lemma worker_process_outcome:
  assumes pos: "0 < unfinished_tasks (product_url_queue s)"
  shows "case worker_outcome env p of
           Inl e \<Rightarrow>
             if e = Empty then worker_process env i p s = (Exited (ByEmpty p), s)
             else worker_process env i p s =
               (Idle, emit [ProductDone (Suc i) (Some p)]
                  (emit [LogError] s\<lparr>product_url_queue := (product_url_queue s)
                     \<lparr>unfinished_tasks := unfinished_tasks (product_url_queue s) - 1\<rparr>\<rparr>))
         | Inr None \<Rightarrow>
             worker_process env i p s =
               (Idle, emit [ProductDone (Suc i) (Some p)]
                  (emit [LogWarning] s\<lparr>product_url_queue := (product_url_queue s)
                     \<lparr>unfinished_tasks := unfinished_tasks (product_url_queue s) - 1\<rparr>\<rparr>))
         | Inr (Some r) \<Rightarrow>
             worker_process env i p s =
               (Idle, emit [ProductDone (Suc i) (Some p)]
                  (put_record i r s\<lparr>product_url_queue := (product_url_queue s)
                     \<lparr>unfinished_tasks := unfinished_tasks (product_url_queue s) - 1\<rparr>\<rparr>))"
  using pos
  by (simp add: worker_outcome_def worker_process_def worker_try_def worker_except_def
      product_task_done_ok put_record_def emit_def split: sum.splits option.splits)

text \<open>
  With the completion count exact, a step of worker \<open>i\<close> is one of seven: the timeout on
  the empty queue; the sentinel; taking a product; and, with a product in hand, the put
  of its record, the failed fetch, the error, or the \<open>Empty\<close> that ends the loop. Every
  case but the last two ends with the product marked done.
\<close>

lemma worker_step_cases [consumes 2, case_names timeout sentinel take pushed failed error dropped]:
  assumes inv: "queue_accounted s" and st: "worker_step env i s = Some s'"
  obtains
    (timeout) "workers s ! i = Idle" "queue (product_url_queue s) = []"
      "s' = s\<lparr>workers := (workers s)[i := Exited ByTimeout]\<rparr>"
  | (sentinel) rest where "workers s ! i = Idle" "queue (product_url_queue s) = None # rest"
      "s' = s\<lparr>product_url_queue := (product_url_queue s)
                \<lparr>queue := rest, unfinished_tasks := unfinished_tasks (product_url_queue s) - 1\<rparr>,
              workers := (workers s)[i := Exited BySentinel],
              events := events s @ [ProductDone (Suc i) None]\<rparr>"
  | (take) p rest where "workers s ! i = Idle" "queue (product_url_queue s) = Some p # rest"
      "s' = s\<lparr>product_url_queue := (product_url_queue s)\<lparr>queue := rest\<rparr>,
              workers := (workers s)[i := Holding p]\<rparr>"
  | (pushed) p r where "workers s ! i = Holding p" "worker_outcome env p = Inr (Some r)"
      "s' = s\<lparr>product_url_queue := (product_url_queue s)
                \<lparr>unfinished_tasks := unfinished_tasks (product_url_queue s) - 1\<rparr>,
              data_to_write_queue := put (Some r) (data_to_write_queue s),
              workers := (workers s)[i := Idle],
              events := events s @ [PutRecord (Suc i) r, ProductDone (Suc i) (Some p)]\<rparr>"
  | (failed) p where "workers s ! i = Holding p" "worker_outcome env p = Inr None"
      "s' = s\<lparr>product_url_queue := (product_url_queue s)
                \<lparr>unfinished_tasks := unfinished_tasks (product_url_queue s) - 1\<rparr>,
              workers := (workers s)[i := Idle],
              events := events s @ [LogWarning, ProductDone (Suc i) (Some p)]\<rparr>"
  | (error) p e where "workers s ! i = Holding p" "worker_outcome env p = Inl e" "e \<noteq> Empty"
      "s' = s\<lparr>product_url_queue := (product_url_queue s)
                \<lparr>unfinished_tasks := unfinished_tasks (product_url_queue s) - 1\<rparr>,
              workers := (workers s)[i := Idle],
              events := events s @ [LogError, ProductDone (Suc i) (Some p)]\<rparr>"
  | (dropped) p where "workers s ! i = Holding p" "worker_outcome env p = Inl Empty"
      "s' = s\<lparr>workers := (workers s)[i := Exited (ByEmpty p)]\<rparr>"
proof -
  from st have i: "i < length (workers s)"
    by (simp add: worker_step_def split: if_splits)
  from inv have cnt: "unfinished_tasks (product_url_queue s) =
      length (queue (product_url_queue s)) + length (taken s)"
    by (simp add: queue_accounted_def)
  show thesis
  proof (cases "workers s ! i")
    case Idle
    from st i Idle have s': "s' = set_worker i (worker_get i s)"
      by (simp add: worker_step_def)
    show ?thesis
    proof (cases "queue (product_url_queue s)")
      case Nil
      from s' worker_get_empty [OF Nil, of i]
      have "s' = s\<lparr>workers := (workers s)[i := Exited ByTimeout]\<rparr>"
        by (simp add: set_worker_def)
      with Idle Nil show ?thesis by (rule timeout)
    next
      case (Cons x rest)
      from cnt Cons have pos: "0 < unfinished_tasks (product_url_queue s)" by simp
      show ?thesis
      proof (cases x)
        case None
        with Cons have q: "queue (product_url_queue s) = None # rest" by simp
        from s' q pos
        have "s' = s\<lparr>product_url_queue := (product_url_queue s)
                \<lparr>queue := rest, unfinished_tasks := unfinished_tasks (product_url_queue s) - 1\<rparr>,
              workers := (workers s)[i := Exited BySentinel],
              events := events s @ [ProductDone (Suc i) None]\<rparr>"
          by (simp add: set_worker_def worker_get_def get_def product_task_done_def
              task_done_def emit_def)
        with Idle q show ?thesis by (rule sentinel)
      next
        case (Some p)
        with Cons have q: "queue (product_url_queue s) = Some p # rest" by simp
        from s' q
        have "s' = s\<lparr>product_url_queue := (product_url_queue s)\<lparr>queue := rest\<rparr>,
              workers := (workers s)[i := Holding p]\<rparr>"
          by (simp add: set_worker_def worker_get_def get_def)
        with Idle q show ?thesis by (rule take)
      qed
    qed
  next
    case (Holding p)
    from st i Holding have s': "s' = set_worker i (worker_process env i p s)"
      by (simp add: worker_step_def)
    from in_hand_le_taken [OF i] Holding have "1 \<le> length (taken s)" by simp
    with cnt have pos: "0 < unfinished_tasks (product_url_queue s)" by linarith
    note o = worker_process_outcome [OF pos, where env = env and p = p and i = i]
    show ?thesis
    proof (cases "worker_outcome env p")
      case (Inl e)
      show ?thesis
      proof (cases "e = Empty")
        case True
        with o Inl s' have "s' = s\<lparr>workers := (workers s)[i := Exited (ByEmpty p)]\<rparr>"
          by (simp add: set_worker_def)
        with Holding Inl True show ?thesis by (simp add: dropped)
      next
        case False
        with o Inl s'
        have "s' = s\<lparr>product_url_queue := (product_url_queue s)
                \<lparr>unfinished_tasks := unfinished_tasks (product_url_queue s) - 1\<rparr>,
              workers := (workers s)[i := Idle],
              events := events s @ [LogError, ProductDone (Suc i) (Some p)]\<rparr>"
          by (simp add: set_worker_def emit_def)
        with Holding Inl False show ?thesis by (rule error)
      qed
    next
      case (Inr x)
      show ?thesis
      proof (cases x)
        case None
        with o Inr s'
        have "s' = s\<lparr>product_url_queue := (product_url_queue s)
                \<lparr>unfinished_tasks := unfinished_tasks (product_url_queue s) - 1\<rparr>,
              workers := (workers s)[i := Idle],
              events := events s @ [LogWarning, ProductDone (Suc i) (Some p)]\<rparr>"
          by (simp add: set_worker_def emit_def)
        with Holding Inr None show ?thesis by (simp add: failed)
      next
        case (Some r)
        with o Inr s'
        have "s' = s\<lparr>product_url_queue := (product_url_queue s)
                \<lparr>unfinished_tasks := unfinished_tasks (product_url_queue s) - 1\<rparr>,
              data_to_write_queue := put (Some r) (data_to_write_queue s),
              workers := (workers s)[i := Idle],
              events := events s @ [PutRecord (Suc i) r, ProductDone (Suc i) (Some p)]\<rparr>"
          by (simp add: set_worker_def emit_def put_record_def)
        with Holding Inr Some show ?thesis by (simp add: pushed)
      qed
    qed
  next
    case (Exited r)
    with st i show ?thesis by (simp add: worker_step_def)
  qed
qed

section \<open>A worker with a product in hand\<close>

lemma worker_holding_step:
  assumes inv: "queue_accounted s" and i: "i < length (workers s)"
    and h: "workers s ! i = Holding p"
  shows "step env (Worker i) s = Some
     (case worker_outcome env p of
        Inl e \<Rightarrow>
          if e = Empty then s\<lparr>workers := (workers s)[i := Exited (ByEmpty p)]\<rparr>
          else s\<lparr>product_url_queue := (product_url_queue s)
                   \<lparr>unfinished_tasks := unfinished_tasks (product_url_queue s) - 1\<rparr>,
                 workers := (workers s)[i := Idle],
                 events := events s @ [LogError, ProductDone (Suc i) (Some p)]\<rparr>
      | Inr None \<Rightarrow>
          s\<lparr>product_url_queue := (product_url_queue s)
                \<lparr>unfinished_tasks := unfinished_tasks (product_url_queue s) - 1\<rparr>,
              workers := (workers s)[i := Idle],
              events := events s @ [LogWarning, ProductDone (Suc i) (Some p)]\<rparr>
      | Inr (Some r) \<Rightarrow>
          s\<lparr>product_url_queue := (product_url_queue s)
                \<lparr>unfinished_tasks := unfinished_tasks (product_url_queue s) - 1\<rparr>,
              data_to_write_queue := put (Some r) (data_to_write_queue s),
              workers := (workers s)[i := Idle],
              events := events s @ [PutRecord (Suc i) r, ProductDone (Suc i) (Some p)]\<rparr>)"
proof -
  from h have "\<not> is_exited (workers s ! i)" by (simp add: is_exited_def)
  from worker_step_enabled [OF i this, of env] obtain s' where
    st: "worker_step env i s = Some s'" by blast
  from inv st have "s' = (case worker_outcome env p of
        Inl e \<Rightarrow>
          if e = Empty then s\<lparr>workers := (workers s)[i := Exited (ByEmpty p)]\<rparr>
          else s\<lparr>product_url_queue := (product_url_queue s)
                   \<lparr>unfinished_tasks := unfinished_tasks (product_url_queue s) - 1\<rparr>,
                 workers := (workers s)[i := Idle],
                 events := events s @ [LogError, ProductDone (Suc i) (Some p)]\<rparr>
      | Inr None \<Rightarrow>
          s\<lparr>product_url_queue := (product_url_queue s)
                \<lparr>unfinished_tasks := unfinished_tasks (product_url_queue s) - 1\<rparr>,
              workers := (workers s)[i := Idle],
              events := events s @ [LogWarning, ProductDone (Suc i) (Some p)]\<rparr>
      | Inr (Some r) \<Rightarrow>
          s\<lparr>product_url_queue := (product_url_queue s)
                \<lparr>unfinished_tasks := unfinished_tasks (product_url_queue s) - 1\<rparr>,
              data_to_write_queue := put (Some r) (data_to_write_queue s),
              workers := (workers s)[i := Idle],
              events := events s @ [PutRecord (Suc i) r, ProductDone (Suc i) (Some p)]\<rparr>)"
    using h by (cases rule: worker_step_cases) simp_all
  with st show ?thesis by (simp add: step_def)
qed

lemma holding_positive:
  assumes inv: "queue_accounted s" and i: "i < length (workers s)"
    and h: "workers s ! i = Holding p"
  shows "0 < unfinished_tasks (product_url_queue s)"
proof -
  from in_hand_le_taken [OF i] h have "1 \<le> length (taken s)" by simp
  moreover from inv have "unfinished_tasks (product_url_queue s) =
      length (queue (product_url_queue s)) + length (taken s)"
    by (simp add: queue_accounted_def)
  ultimately show ?thesis by linarith
qed

lemma attach_url:
  "product_data.url (product_details.extend details (product_data.fields u)) = u \<and>
   product_details.truncate (product_details.extend details (product_data.fields u)) = details"
  by (simp add: product_details.defs product_data.defs)

lemma reachable_accounted: "queue_accounted (run env sched (run_scraping_start env))"
  using run_invariant [of "run_scraping_start env" env sched] run_scraping_start_invariant [of env]
  by simp

text \<open>
  Claim C4. In every reachable state, for a worker that holds a product: if
  \<open>fetch_page\<close> returns \<open>None\<close>, its step logs a warning and marks the slot done, puts
  nothing on the record queue and leaves the product queue as it is, so the product is
  not retried; if \<open>fetch_page\<close> returns a tree and the extractor a record, its step puts
  exactly that record, with the url of the product attached, on the record queue and
  then marks the slot done. In both cases the completion count goes down by one and the
  worker returns to \<open>get\<close>.
\<close>

theorem worker_fetch_outcomes:
  assumes "s = run env sched (run_scraping_start env)"
    and "i < length (workers s)" and "workers s ! i = Holding p"
  shows
    "(scraper_fetch_page env (url p) (sleep_between_product_pages env) = Inr None \<longrightarrow>
        (\<exists>s'. step env (Worker i) s = Some s' \<and>
           events s' = events s @ [LogWarning, ProductDone (Suc i) (Some p)] \<and>
           data_to_write_queue s' = data_to_write_queue s \<and>
           queue (product_url_queue s') = queue (product_url_queue s) \<and>
           unfinished_tasks (product_url_queue s') + 1 = unfinished_tasks (product_url_queue s) \<and>
           workers s' = (workers s)[i := Idle])) \<and>
     (\<forall>tree details.
        scraper_fetch_page env (url p) (sleep_between_product_pages env) = Inr (Some tree) \<and>
        extractor_extract env tree (name_on_listing p) (category_on_listing p) = Inr details \<longrightarrow>
        (\<exists>s' r. step env (Worker i) s = Some s' \<and>
           product_data.url r = url p \<and> product_details.truncate r = details \<and>
           events s' = events s @ [PutRecord (Suc i) r, ProductDone (Suc i) (Some p)] \<and>
           data_to_write_queue s' = put (Some r) (data_to_write_queue s) \<and>
           queue (product_url_queue s') = queue (product_url_queue s) \<and>
           unfinished_tasks (product_url_queue s') + 1 = unfinished_tasks (product_url_queue s) \<and>
           workers s' = (workers s)[i := Idle]))"
proof -
  from assms(1) have inv: "queue_accounted s" by (simp add: reachable_accounted)
  note st = worker_holding_step [OF inv assms(2,3), of env]
  note pos = holding_positive [OF inv assms(2,3)]
  have 1: "scraper_fetch_page env (url p) (sleep_between_product_pages env) = Inr None \<longrightarrow>
        (\<exists>s'. step env (Worker i) s = Some s' \<and>
           events s' = events s @ [LogWarning, ProductDone (Suc i) (Some p)] \<and>
           data_to_write_queue s' = data_to_write_queue s \<and>
           queue (product_url_queue s') = queue (product_url_queue s) \<and>
           unfinished_tasks (product_url_queue s') + 1 = unfinished_tasks (product_url_queue s) \<and>
           workers s' = (workers s)[i := Idle])"
  proof
    assume "scraper_fetch_page env (url p) (sleep_between_product_pages env) = Inr None"
    then have "worker_outcome env p = Inr None" by (simp add: worker_outcome_def)
    with st pos show "\<exists>s'. step env (Worker i) s = Some s' \<and>
           events s' = events s @ [LogWarning, ProductDone (Suc i) (Some p)] \<and>
           data_to_write_queue s' = data_to_write_queue s \<and>
           queue (product_url_queue s') = queue (product_url_queue s) \<and>
           unfinished_tasks (product_url_queue s') + 1 = unfinished_tasks (product_url_queue s) \<and>
           workers s' = (workers s)[i := Idle]"
      by simp
  qed
  have 2: "\<forall>tree details.
        scraper_fetch_page env (url p) (sleep_between_product_pages env) = Inr (Some tree) \<and>
        extractor_extract env tree (name_on_listing p) (category_on_listing p) = Inr details \<longrightarrow>
        (\<exists>s' r. step env (Worker i) s = Some s' \<and>
           product_data.url r = url p \<and> product_details.truncate r = details \<and>
           events s' = events s @ [PutRecord (Suc i) r, ProductDone (Suc i) (Some p)] \<and>
           data_to_write_queue s' = put (Some r) (data_to_write_queue s) \<and>
           queue (product_url_queue s') = queue (product_url_queue s) \<and>
           unfinished_tasks (product_url_queue s') + 1 = unfinished_tasks (product_url_queue s) \<and>
           workers s' = (workers s)[i := Idle])"
  proof (intro allI impI)
    fix tree details
    assume a: "scraper_fetch_page env (url p) (sleep_between_product_pages env) = Inr (Some tree) \<and>
        extractor_extract env tree (name_on_listing p) (category_on_listing p) = Inr details"
    let ?r = "product_details.extend details (product_data.fields (url p))"
    from a have "worker_outcome env p = Inr (Some ?r)" by (simp add: worker_outcome_def)
    with st pos attach_url [of details "url p"]
    have "step env (Worker i) s = Some
        (s\<lparr>product_url_queue := (product_url_queue s)
                \<lparr>unfinished_tasks := unfinished_tasks (product_url_queue s) - 1\<rparr>,
              data_to_write_queue := put (Some ?r) (data_to_write_queue s),
              workers := (workers s)[i := Idle],
              events := events s @ [PutRecord (Suc i) ?r, ProductDone (Suc i) (Some p)]\<rparr>) \<and>
        product_data.url ?r = url p \<and> product_details.truncate ?r = details"
      by simp
    with pos show "\<exists>s' r. step env (Worker i) s = Some s' \<and>
           product_data.url r = url p \<and> product_details.truncate r = details \<and>
           events s' = events s @ [PutRecord (Suc i) r, ProductDone (Suc i) (Some p)] \<and>
           data_to_write_queue s' = put (Some r) (data_to_write_queue s) \<and>
           queue (product_url_queue s') = queue (product_url_queue s) \<and>
           unfinished_tasks (product_url_queue s') + 1 = unfinished_tasks (product_url_queue s) \<and>
           workers s' = (workers s)[i := Idle]"
      by (intro exI [of _ "s\<lparr>product_url_queue := (product_url_queue s)
                \<lparr>unfinished_tasks := unfinished_tasks (product_url_queue s) - 1\<rparr>,
              data_to_write_queue := put (Some ?r) (data_to_write_queue s),
              workers := (workers s)[i := Idle],
              events := events s @ [PutRecord (Suc i) ?r, ProductDone (Suc i) (Some p)]\<rparr>"]
          exI [of _ ?r]) simp
  qed
  from 1 2 show ?thesis by blast
qed

lemma example_holding_facts:
  "workers (run example_run_env [Worker 0] (run_scraping_start example_run_env)) ! 0 =
     Holding product_a"
  "length (workers (run example_run_env [Worker 0] (run_scraping_start example_run_env))) = 2"
  "scraper_fetch_page example_run_env (url product_a)
     (sleep_between_product_pages example_run_env) = Inr (Some sample_detail_page)"
  "extractor_extract example_run_env sample_detail_page (name_on_listing product_a)
     (category_on_listing product_a) = Inr (product_details.truncate record_a)"
  "workers (run example_run_env [Worker 0, Worker 1] (run_scraping_start example_run_env)) ! 1 =
     Holding product_b"
  "length (workers (run example_run_env [Worker 0, Worker 1]
     (run_scraping_start example_run_env))) = 2"
  "scraper_fetch_page example_run_env (url product_b)
     (sleep_between_product_pages example_run_env) = Inr None"
  by code_simp+

theorem worker_fetch_outcomes_witness:
  "workers (run example_run_env [Worker 0] (run_scraping_start example_run_env)) ! 0 =
     Holding product_a \<and>
   scraper_fetch_page example_run_env (url product_a)
     (sleep_between_product_pages example_run_env) = Inr (Some sample_detail_page) \<and>
   (\<exists>s' r. step example_run_env (Worker 0)
        (run example_run_env [Worker 0] (run_scraping_start example_run_env)) = Some s' \<and>
      product_data.url r = url product_a \<and>
      events s' = events (run example_run_env [Worker 0] (run_scraping_start example_run_env))
        @ [PutRecord 1 r, ProductDone 1 (Some product_a)]) \<and>
   workers (run example_run_env [Worker 0, Worker 1] (run_scraping_start example_run_env)) ! 1 =
     Holding product_b \<and>
   scraper_fetch_page example_run_env (url product_b)
     (sleep_between_product_pages example_run_env) = Inr None \<and>
   (\<exists>s'. step example_run_env (Worker 1)
        (run example_run_env [Worker 0, Worker 1] (run_scraping_start example_run_env)) = Some s' \<and>
      events s' =
        events (run example_run_env [Worker 0, Worker 1] (run_scraping_start example_run_env))
        @ [LogWarning, ProductDone 2 (Some product_b)] \<and>
      data_to_write_queue s' = data_to_write_queue
        (run example_run_env [Worker 0, Worker 1] (run_scraping_start example_run_env)))"
proof -
  let ?s1 = "run example_run_env [Worker 0] (run_scraping_start example_run_env)"
  let ?s2 = "run example_run_env [Worker 0, Worker 1] (run_scraping_start example_run_env)"
  note f = example_holding_facts
  have i1: "0 < length (workers ?s1)" and i2: "1 < length (workers ?s2)"
    by (simp_all only: f(2) f(6))
  from worker_fetch_outcomes [OF refl i1 f(1)] f(3) f(4)
  have a: "\<exists>s' r. step example_run_env (Worker 0) ?s1 = Some s' \<and>
      product_data.url r = url product_a \<and>
      events s' = events ?s1 @ [PutRecord 1 r, ProductDone 1 (Some product_a)]"
    by fastforce
  from worker_fetch_outcomes [OF refl i2 f(5)] f(7)
  have b: "\<exists>s'. step example_run_env (Worker 1) ?s2 = Some s' \<and>
      events s' = events ?s2 @ [LogWarning, ProductDone 2 (Some product_b)] \<and>
      data_to_write_queue s' = data_to_write_queue ?s2"
    by fastforce
  from f(1) f(3) a f(5) f(7) b show ?thesis by blast
qed

section \<open>Errors in a worker do not block the join\<close>

lemma is_exited_simps:
  "is_exited Idle = False" "is_exited (Holding p) = False" "is_exited (Exited r) = True"
  by (simp_all add: is_exited_def)

lemma is_holding_simps:
  "is_holding Idle = False" "is_holding (Holding p) = True" "is_holding (Exited r) = False"
  by (simp_all add: is_holding_def)

lemma no_drop_update:
  "\<forall>p. Exited (ByEmpty p) \<notin> set ws \<Longrightarrow> \<forall>p. w \<noteq> Exited (ByEmpty p) \<Longrightarrow>
     \<forall>p. Exited (ByEmpty p) \<notin> set (ws[i := w])"
  using set_update_subset_insert [of ws i w] by auto

lemma exited_update:
  "\<not> is_exited w \<Longrightarrow> \<exists>x \<in> set (ws[i := w]). is_exited x \<Longrightarrow> \<exists>x \<in> set ws. is_exited x"
  using set_update_subset_insert [of ws i w] by auto

lemma worker_step_drains:
  assumes ne: "never_raises_empty env" and inv: "queue_accounted s" and j: "join_drains s"
    and st: "worker_step env i s = Some s'"
  shows "join_drains s'"
proof -
  from st have i: "i < length (workers s)"
    by (simp add: worker_step_def split: if_splits)
  from j have d: "\<forall>p. Exited (ByEmpty p) \<notin> set (workers s)"
    and jj: "orchestrator s = Joining \<longrightarrow>
         workers s \<noteq> [] \<and> None \<notin> set (queue (product_url_queue s)) \<and>
         ((\<exists>w \<in> set (workers s). is_exited w) \<longrightarrow> queue (product_url_queue s) = [])"
    by (simp_all add: join_drains_def)
  have idle: "\<not> is_exited Idle" and hold: "\<not> is_exited (Holding q)" for q
    by (simp_all add: is_exited_def)
  from inv st show ?thesis
  proof (cases rule: worker_step_cases)
    case timeout
    with d jj show ?thesis
      by (simp add: join_drains_def no_drop_update)
  next
    case (sentinel rest)
    with d jj show ?thesis
      by (simp add: join_drains_def no_drop_update)
  next
    case (take p rest)
    with jj have nx: "orchestrator s = Joining \<longrightarrow> \<not> (\<exists>w \<in> set (workers s). is_exited w)"
      by auto
    from exited_update [OF hold, of "workers s" i p] nx
    have "orchestrator s = Joining \<longrightarrow> \<not> (\<exists>w \<in> set ((workers s)[i := Holding p]). is_exited w)"
      by blast
    with take d jj show ?thesis
      by (simp add: join_drains_def no_drop_update)
  next
    case (pushed p r)
    from exited_update [OF idle, of "workers s" i] pushed d jj show ?thesis
      by (auto simp: join_drains_def no_drop_update)
  next
    case (failed p)
    from exited_update [OF idle, of "workers s" i] failed d jj show ?thesis
      by (auto simp: join_drains_def no_drop_update)
  next
    case (error p e)
    from exited_update [OF idle, of "workers s" i] error d jj show ?thesis
      by (auto simp: join_drains_def no_drop_update)
  next
    case (dropped p)
    with ne show ?thesis by (simp add: never_raises_empty_def)
  qed
qed

lemma writer_step_drains: "join_drains s \<Longrightarrow> writer_step env s = Some s' \<Longrightarrow> join_drains s'"
  by (auto simp: join_drains_def dest!: writer_step_frame)

lemma orchestrator_step_drains:
  assumes j: "join_drains s" and st: "orchestrator_step s = Some s'"
  shows "join_drains s'"
proof (cases "orchestrator s")
  case Joining
  with st j show ?thesis
    by (auto simp: orchestrator_step_def join_drains_def split: if_splits)
next
  case (Signalling k)
  with st j show ?thesis
    by (cases k) (auto simp: orchestrator_step_def join_drains_def)
next
  case WaitingWorkers
  with st j show ?thesis
    by (auto simp: orchestrator_step_def join_drains_def split: if_splits)
next
  case JoiningWriter
  with st j show ?thesis
    by (auto simp: orchestrator_step_def join_drains_def)
next
  case Teardown
  with st j show ?thesis
    by (auto simp: orchestrator_step_def join_drains_def)
next
  case Finished
  with st show ?thesis by (simp add: orchestrator_step_def)
qed

lemma exec_drains:
  assumes ne: "never_raises_empty env" and inv: "queue_accounted s" and j: "join_drains s"
  shows "join_drains (exec env a s)"
proof (cases "step env a s")
  case None
  with j show ?thesis by (simp add: exec_def)
next
  case (Some s')
  have "join_drains s'"
  proof (cases a)
    case (Worker i)
    with Some have "worker_step env i s = Some s'" by (simp add: step_def)
    from worker_step_drains [OF ne inv j this] show ?thesis .
  next
    case Writer
    with Some have "writer_step env s = Some s'" by (simp add: step_def)
    from writer_step_drains [OF j this] show ?thesis .
  next
    case Orchestrator
    with Some have "orchestrator_step s = Some s'" by (simp add: step_def)
    from orchestrator_step_drains [OF j this] show ?thesis .
  qed
  with Some show ?thesis by (simp add: exec_def)
qed

lemma run_drains:
  "never_raises_empty env \<Longrightarrow>
   queue_accounted s \<and> nothing_lost s \<and> handshake_order s \<Longrightarrow> join_drains s \<Longrightarrow>
     join_drains (run env sched s)"
proof (induction sched arbitrary: s)
  case Nil
  then show ?case by simp
next
  case (Cons a sched)
  from Cons.prems have "join_drains (exec env a s)" by (simp add: exec_drains)
  from Cons.IH [OF Cons.prems(1) exec_invariant [OF Cons.prems(2)] this] show ?case by simp
qed

lemma start_threads_drains: "join_drains (start_threads env d ev ps)"
proof -
  have 1: "Exited r \<notin> set (replicate n Idle)" for r n by simp
  have 4: "None \<notin> set (map Some ps)" by auto
  from 1 4 show ?thesis
    by (simp add: start_threads_def fold_put_Some Let_def join_drains_def is_exited_simps
        del: set_map)
qed

lemma run_scraping_start_drains: "join_drains (run_scraping_start env)"
proof -
  from run_scraping_start_cases [of env] obtain d ev where
    c: "run_scraping_start env = aborted d ev \<or>
      (\<exists>ps. run_scraping_start env = start_threads env d ev ps)" by blast
  then show ?thesis
  proof
    assume "run_scraping_start env = aborted d ev"
    then show ?thesis by (simp add: aborted_def join_drains_def)
  next
    assume "\<exists>ps. run_scraping_start env = start_threads env d ev ps"
    then show ?thesis by (auto simp: start_threads_drains)
  qed
qed

lemma taken_holding:
  "\<forall>p. Exited (ByEmpty p) \<notin> set ws \<Longrightarrow>
     length (concat (map in_hand ws)) = length (filter is_holding ws)"
proof (induction ws)
  case Nil
  show ?case by simp
next
  case (Cons w ws)
  then have ih: "length (concat (map in_hand ws)) = length (filter is_holding ws)" by simp
  show ?case
  proof (cases w)
    case Idle
    with ih show ?thesis by (simp add: is_holding_simps)
  next
    case (Holding p)
    with ih show ?thesis by (simp add: is_holding_simps)
  next
    case (Exited r)
    with Cons.prems have "\<forall>p. r \<noteq> ByEmpty p" by auto
    with Exited ih show ?thesis by (cases r) (simp_all add: is_holding_simps)
  qed
qed

lemma holding_none_exited:
  "list_all is_exited ws \<Longrightarrow> filter is_holding ws = []"
proof (induction ws)
  case Nil
  show ?case by simp
next
  case (Cons w ws)
  then show ?case by (cases w) (simp_all add: is_exited_simps is_holding_simps)
qed

text \<open>
  Claim C6. In every reachable state, for a worker that holds a product: when
  \<open>fetch_page\<close> or the extractor raises an exception other than \<open>queue.Empty\<close>, the
  step of the worker logs the error, marks the slot done and returns to \<open>get\<close>, with
  the worker still in its loop. If the scraper and the extractor never raise
  \<open>queue.Empty\<close>, the completion count is exactly the number of items in the queue plus
  the number of workers that hold a product, whatever errors occurred; and once every
  worker has been named more often than there was work at the start, a waiting \<open>join\<close>
  finds the count at zero and returns.
\<close>

theorem worker_error_keeps_count:
  assumes "s = run env sched (run_scraping_start env)"
  shows
    "(\<forall>i p e. i < length (workers s) \<and> workers s ! i = Holding p \<and> e \<noteq> Empty \<and>
         (scraper_fetch_page env (url p) (sleep_between_product_pages env) = Inl e \<or>
          (\<exists>tree. scraper_fetch_page env (url p) (sleep_between_product_pages env) =
                    Inr (Some tree) \<and>
             extractor_extract env tree (name_on_listing p) (category_on_listing p) = Inl e)) \<longrightarrow>
         (\<exists>s'. step env (Worker i) s = Some s' \<and>
            events s' = events s @ [LogError, ProductDone (Suc i) (Some p)] \<and>
            workers s' = (workers s)[i := Idle] \<and>
            unfinished_tasks (product_url_queue s') + 1 = unfinished_tasks (product_url_queue s) \<and>
            queue (product_url_queue s') = queue (product_url_queue s) \<and>
            data_to_write_queue s' = data_to_write_queue s)) \<and>
     (never_raises_empty env \<longrightarrow>
        unfinished_tasks (product_url_queue s) =
          length (queue (product_url_queue s)) + length (filter is_holding (workers s)) \<and>
        (orchestrator s = Joining \<and>
         (\<forall>i < length (workers s).
            remaining_work (run_scraping_start env) < count_list sched (Worker i)) \<longrightarrow>
           unfinished_tasks (product_url_queue s) = 0 \<and>
           (\<exists>s'. step env Orchestrator s = Some s' \<and>
              orchestrator s' = Signalling (length (workers s)))))"
proof -
  from assms have inv: "queue_accounted s" by (simp add: reachable_accounted)
  have 1: "\<forall>i p e. i < length (workers s) \<and> workers s ! i = Holding p \<and> e \<noteq> Empty \<and>
         (scraper_fetch_page env (url p) (sleep_between_product_pages env) = Inl e \<or>
          (\<exists>tree. scraper_fetch_page env (url p) (sleep_between_product_pages env) =
                    Inr (Some tree) \<and>
             extractor_extract env tree (name_on_listing p) (category_on_listing p) = Inl e)) \<longrightarrow>
         (\<exists>s'. step env (Worker i) s = Some s' \<and>
            events s' = events s @ [LogError, ProductDone (Suc i) (Some p)] \<and>
            workers s' = (workers s)[i := Idle] \<and>
            unfinished_tasks (product_url_queue s') + 1 = unfinished_tasks (product_url_queue s) \<and>
            queue (product_url_queue s') = queue (product_url_queue s) \<and>
            data_to_write_queue s' = data_to_write_queue s)"
  proof (intro allI impI)
    fix i p e
    assume a: "i < length (workers s) \<and> workers s ! i = Holding p \<and> e \<noteq> Empty \<and>
         (scraper_fetch_page env (url p) (sleep_between_product_pages env) = Inl e \<or>
          (\<exists>tree. scraper_fetch_page env (url p) (sleep_between_product_pages env) =
                    Inr (Some tree) \<and>
             extractor_extract env tree (name_on_listing p) (category_on_listing p) = Inl e))"
    then have i: "i < length (workers s)" and h: "workers s ! i = Holding p" and e: "e \<noteq> Empty"
      by simp_all
    from a have o: "worker_outcome env p = Inl e" by (auto simp: worker_outcome_def)
    from worker_holding_step [OF inv i h, of env] o e holding_positive [OF inv i h]
    show "\<exists>s'. step env (Worker i) s = Some s' \<and>
            events s' = events s @ [LogError, ProductDone (Suc i) (Some p)] \<and>
            workers s' = (workers s)[i := Idle] \<and>
            unfinished_tasks (product_url_queue s') + 1 = unfinished_tasks (product_url_queue s) \<and>
            queue (product_url_queue s') = queue (product_url_queue s) \<and>
            data_to_write_queue s' = data_to_write_queue s"
      by simp
  qed
  have 2: "never_raises_empty env \<longrightarrow>
        unfinished_tasks (product_url_queue s) =
          length (queue (product_url_queue s)) + length (filter is_holding (workers s)) \<and>
        (orchestrator s = Joining \<and>
         (\<forall>i < length (workers s).
            remaining_work (run_scraping_start env) < count_list sched (Worker i)) \<longrightarrow>
           unfinished_tasks (product_url_queue s) = 0 \<and>
           (\<exists>s'. step env Orchestrator s = Some s' \<and>
              orchestrator s' = Signalling (length (workers s))))"
  proof
    assume ne: "never_raises_empty env"
    note i0 = run_scraping_start_invariant [of env]
    from i0 have i3: "queue_accounted (run_scraping_start env) \<and>
        nothing_lost (run_scraping_start env) \<and> handshake_order (run_scraping_start env)"
      by simp
    from run_drains [OF ne i3 run_scraping_start_drains, of sched] assms
    have j: "join_drains s" by simp
    then have d: "\<forall>p. Exited (ByEmpty p) \<notin> set (workers s)" by (simp add: join_drains_def)
    from inv taken_holding [OF d]
    have c: "unfinished_tasks (product_url_queue s) =
        length (queue (product_url_queue s)) + length (filter is_holding (workers s))"
      by (simp add: queue_accounted_def taken_def)
    have l: "orchestrator s = Joining \<and>
         (\<forall>i < length (workers s).
            remaining_work (run_scraping_start env) < count_list sched (Worker i)) \<longrightarrow>
           unfinished_tasks (product_url_queue s) = 0 \<and>
           (\<exists>s'. step env Orchestrator s = Some s' \<and>
              orchestrator s' = Signalling (length (workers s)))"
    proof
      assume a: "orchestrator s = Joining \<and>
         (\<forall>i < length (workers s).
            remaining_work (run_scraping_start env) < count_list sched (Worker i))"
      have len: "length (workers s) = length (workers (run_scraping_start env))"
        using assms by (simp add: run_length)
      have ex: "is_exited (workers s ! i)" if "i < length (workers s)" for i
      proof -
        from that len have i': "i < length (workers (run_scraping_start env))" by simp
        from a that have "remaining_work (run_scraping_start env) < count_list sched (Worker i)"
          by simp
        from worker_terminates [OF i' this, of env] assms show ?thesis by simp
      qed
      then have all: "list_all is_exited (workers s)" by (simp add: list_all_length)
      from j a have ne': "workers s \<noteq> []" by (simp add: join_drains_def)
      with all have "\<exists>w \<in> set (workers s). is_exited w"
        by (cases "workers s") simp_all
      with j a have q: "queue (product_url_queue s) = []" by (simp add: join_drains_def)
      from c q holding_none_exited [OF all]
      have z: "unfinished_tasks (product_url_queue s) = 0" by simp
      with a show "unfinished_tasks (product_url_queue s) = 0 \<and>
           (\<exists>s'. step env Orchestrator s = Some s' \<and>
              orchestrator s' = Signalling (length (workers s)))"
        by (simp add: step_def orchestrator_step_def join_returns_def)
    qed
    from c l show "unfinished_tasks (product_url_queue s) =
          length (queue (product_url_queue s)) + length (filter is_holding (workers s)) \<and>
        (orchestrator s = Joining \<and>
         (\<forall>i < length (workers s).
            remaining_work (run_scraping_start env) < count_list sched (Worker i)) \<longrightarrow>
           unfinished_tasks (product_url_queue s) = 0 \<and>
           (\<exists>s'. step env Orchestrator s = Some s' \<and>
              orchestrator s' = Signalling (length (workers s))))"
      by blast
  qed
  from 1 2 show ?thesis by blast
qed

lemma fetch_page_never_Empty:
  assumes sl: "t \<le> 0 \<or> time_sleep ws t = Inr ()"
  shows "fst (fetch_page ws u t) \<noteq> Inl Empty"
proof (cases "resolve_url ws u")
  case (Inl e)
  from fetch_page_urljoin_raises [OF sl Inl] show ?thesis by simp
next
  case (Inr full_url)
  from fetch_page_try_returns [OF Inr, of "if 0 < t then [Sleep t] else []"]
  obtain r where "fst (fetch_page_try ws u (if 0 < t then [Sleep t] else [])) = Inr r"
    by blast
  then show ?thesis
    unfolding fetch_page_slept [OF sl, of u] by simp
qed

lemma failing_extractor_never_empty: "never_raises_empty failing_extractor_env"
proof -
  have sl: "(1::int) \<le> 0 \<or> time_sleep (example_scraper example_site) 1 = Inr ()"
    by (simp add: example_scraper_def example_sleep_def)
  have "worker_outcome failing_extractor_env p \<noteq> Inl Empty" for p
    using fetch_page_never_Empty [OF sl, of "url p"]
    by (auto simp: worker_outcome_def failing_extractor_env_def example_run_env_def
        example_env_def split: sum.splits option.splits)
  then show ?thesis by (simp add: never_raises_empty_def)
qed

lemma failing_extractor_facts:
  "workers (run failing_extractor_env [Worker 0] (run_scraping_start failing_extractor_env)) ! 0 =
     Holding product_a"
  "length (workers (run failing_extractor_env [Worker 0]
     (run_scraping_start failing_extractor_env))) = 2"
  "scraper_fetch_page failing_extractor_env (url product_a)
     (sleep_between_product_pages failing_extractor_env) = Inr (Some sample_detail_page)"
  "extractor_extract failing_extractor_env sample_detail_page (name_on_listing product_a)
     (category_on_listing product_a) = Inl ValueError"
  "orchestrator (run failing_extractor_env workers_only_schedule
     (run_scraping_start failing_extractor_env)) = Joining"
  "length (workers (run failing_extractor_env workers_only_schedule
     (run_scraping_start failing_extractor_env))) = 2"
  "remaining_work (run_scraping_start failing_extractor_env) = 10"
  "count_list workers_only_schedule (Worker 0) = 11"
  "count_list workers_only_schedule (Worker 1) = 11"
  by code_simp+

theorem worker_error_keeps_count_witness:
  "workers (run failing_extractor_env [Worker 0] (run_scraping_start failing_extractor_env)) ! 0 =
     Holding product_a \<and>
   extractor_extract failing_extractor_env sample_detail_page (name_on_listing product_a)
     (category_on_listing product_a) = Inl ValueError \<and>
   (\<exists>s'. step failing_extractor_env (Worker 0)
        (run failing_extractor_env [Worker 0] (run_scraping_start failing_extractor_env)) = Some s' \<and>
      events s' =
        events (run failing_extractor_env [Worker 0] (run_scraping_start failing_extractor_env))
        @ [LogError, ProductDone 1 (Some product_a)] \<and>
      workers s' =
        (workers (run failing_extractor_env [Worker 0]
           (run_scraping_start failing_extractor_env)))[0 := Idle]) \<and>
   never_raises_empty failing_extractor_env \<and>
   orchestrator (run failing_extractor_env workers_only_schedule
     (run_scraping_start failing_extractor_env)) = Joining \<and>
   remaining_work (run_scraping_start failing_extractor_env)
     < count_list workers_only_schedule (Worker 0) \<and>
   remaining_work (run_scraping_start failing_extractor_env)
     < count_list workers_only_schedule (Worker 1) \<and>
   unfinished_tasks (product_url_queue (run failing_extractor_env workers_only_schedule
     (run_scraping_start failing_extractor_env))) = 0"
proof -
  let ?s1 = "run failing_extractor_env [Worker 0] (run_scraping_start failing_extractor_env)"
  let ?s2 = "run failing_extractor_env workers_only_schedule
     (run_scraping_start failing_extractor_env)"
  note f = failing_extractor_facts
  note n = failing_extractor_never_empty
  have i1: "0 < length (workers ?s1)" by (simp only: f(2))
  have v: "ValueError \<noteq> Empty" by simp
  from worker_error_keeps_count [OF refl, of failing_extractor_env "[Worker 0]"]
  have "i < length (workers ?s1) \<and> workers ?s1 ! i = Holding p \<and> e \<noteq> Empty \<and>
         (scraper_fetch_page failing_extractor_env (url p)
            (sleep_between_product_pages failing_extractor_env) = Inl e \<or>
          (\<exists>tree. scraper_fetch_page failing_extractor_env (url p)
                    (sleep_between_product_pages failing_extractor_env) = Inr (Some tree) \<and>
             extractor_extract failing_extractor_env tree (name_on_listing p)
               (category_on_listing p) = Inl e)) \<longrightarrow>
         (\<exists>s'. step failing_extractor_env (Worker i) ?s1 = Some s' \<and>
            events s' = events ?s1 @ [LogError, ProductDone (Suc i) (Some p)] \<and>
            workers s' = (workers ?s1)[i := Idle] \<and>
            unfinished_tasks (product_url_queue s') + 1 =
              unfinished_tasks (product_url_queue ?s1) \<and>
            queue (product_url_queue s') = queue (product_url_queue ?s1) \<and>
            data_to_write_queue s' = data_to_write_queue ?s1)" for i p e
    by blast
  from this [of 0 product_a ValueError] i1 f(1) f(3) f(4) v
  have a: "\<exists>s'. step failing_extractor_env (Worker 0) ?s1 = Some s' \<and>
      events s' = events ?s1 @ [LogError, ProductDone 1 (Some product_a)] \<and>
      workers s' = (workers ?s1)[0 := Idle]"
    by auto
  have lt: "remaining_work (run_scraping_start failing_extractor_env)
       < count_list workers_only_schedule (Worker 0)"
    "remaining_work (run_scraping_start failing_extractor_env)
       < count_list workers_only_schedule (Worker 1)"
    by (simp_all only: f(7) f(8) f(9))
  have all: "\<forall>i < length (workers ?s2).
      remaining_work (run_scraping_start failing_extractor_env)
        < count_list workers_only_schedule (Worker i)"
  proof (intro allI impI)
    fix i assume "i < length (workers ?s2)"
    then have "i = 0 \<or> i = 1" by (simp only: f(6)) arith
    with lt show "remaining_work (run_scraping_start failing_extractor_env)
        < count_list workers_only_schedule (Worker i)" by auto
  qed
  from worker_error_keeps_count [OF refl, of failing_extractor_env workers_only_schedule]
    n f(5) all
  have z: "unfinished_tasks (product_url_queue ?s2) = 0" by blast
  from f(1) f(4) a n f(5) lt z show ?thesis by blast
qed

section \<open>The run without categories\<close>

lemma db_disconnect_log:
  "set (db_log (db_disconnect dbm)) \<subseteq> set (db_log dbm) \<union> {CursorClosed, ConnectionClosed}"
  by (auto simp: db_disconnect_def Let_def)

lemma db_connect_log:
  "set (db_log (snd (db_connect env dbm))) \<subseteq> set (db_log dbm) \<union> {Connected}"
  by (auto simp: db_connect_def split: option.splits)

lemma create_products_table_log:
  "set (db_log (snd (create_products_table env new_database_manager)))
     \<subseteq> {Connected, TableCreated, Committed, CursorClosed, ConnectionClosed}"
proof -
  obtain r d1 where c: "db_connect env new_database_manager = (r, d1)"
    by (cases "db_connect env new_database_manager")
  from db_connect_log [of env new_database_manager] c
  have l: "set (db_log d1) \<subseteq> {Connected}" by (simp add: new_database_manager_def)
  have "set (db_log (db_disconnect d1)) \<subseteq> {Connected, CursorClosed, ConnectionClosed}"
    using db_disconnect_log [of d1] l by auto
  moreover have "set (db_log (db_disconnect (d1\<lparr>db_log := db_log d1 @ [TableCreated, Committed]\<rparr>)))
      \<subseteq> {Connected, TableCreated, Committed, CursorClosed, ConnectionClosed}"
    using db_disconnect_log [of "d1\<lparr>db_log := db_log d1 @ [TableCreated, Committed]\<rparr>"] l
    by auto
  ultimately show ?thesis
    using c by (auto simp: create_products_table_def split: option.splits)
qed

lemma no_categories_aborted:
  assumes "fst (get_category_links env) = Inr []"
  shows "\<exists>d ev. run_scraping_start env = aborted d ev \<and> list_all discovery_event ev \<and>
     d = snd (create_products_table env new_database_manager)"
proof (cases "create_products_table env new_database_manager")
  case (Pair r d)
  obtain r1 ev1 where g: "get_category_links env = (r1, ev1)"
    by (cases "get_category_links env")
  with assms have r1: "r1 = Inr []" by simp
  from get_category_links_events [of env] g have e1: "list_all discovery_event ev1" by simp
  show ?thesis
  proof (cases r)
    case (Some e)
    with Pair have "run_scraping_start env = aborted d [LogCritical]"
      by (simp add: run_scraping_start_def)
    moreover have "list_all discovery_event [LogCritical]" by simp
    moreover from Pair have "d = snd (create_products_table env new_database_manager)" by simp
    ultimately show ?thesis by blast
  next
    case None
    with Pair g r1 have "run_scraping_start env = aborted d (ev1 @ [LogError])"
      by (simp add: run_scraping_start_def)
    moreover from e1 have "list_all discovery_event (ev1 @ [LogError])" by simp
    moreover from Pair have "d = snd (create_products_table env new_database_manager)" by simp
    ultimately show ?thesis by blast
  qed
qed

text \<open>From the aborted state only the orchestrator moves, once, through the teardown.\<close>

lemma aborted_steps:
  "worker_step env i (aborted d ev) = None"
  "writer_step env (aborted d ev) = None"
  "orchestrator_step (aborted d ev) =
     Some (emit [CloseSession, TimingLog] ((aborted d ev)\<lparr>orchestrator := Finished\<rparr>))"
  by (simp_all add: aborted_def worker_step_def writer_step_def orchestrator_step_def)

lemma torn_down_steps:
  "step env a (emit [CloseSession, TimingLog] ((aborted d ev)\<lparr>orchestrator := Finished\<rparr>)) = None"
  by (cases a)
    (simp_all add: step_def aborted_def worker_step_def writer_step_def orchestrator_step_def)

lemma run_torn_down:
  "run env sched (emit [CloseSession, TimingLog] ((aborted d ev)\<lparr>orchestrator := Finished\<rparr>)) =
     emit [CloseSession, TimingLog] ((aborted d ev)\<lparr>orchestrator := Finished\<rparr>)"
  by (induction sched) (simp_all add: exec_def torn_down_steps)

lemma run_aborted:
  "run env sched (aborted d ev) =
     (if Orchestrator \<in> set sched
      then emit [CloseSession, TimingLog] ((aborted d ev)\<lparr>orchestrator := Finished\<rparr>)
      else aborted d ev)"
proof (induction sched)
  case Nil
  show ?case by simp
next
  case (Cons a sched)
  show ?case
  proof (cases a)
    case (Worker i)
    with Cons show ?thesis by (simp add: exec_def step_def aborted_steps)
  next
    case Writer
    with Cons show ?thesis by (simp add: exec_def step_def aborted_steps)
  next
    case Orchestrator
    then show ?thesis by (simp add: exec_def step_def aborted_steps run_torn_down)
  qed
qed

lemma failed_main_page_no_links:
  "scraper_fetch_page env (config_base_url env) 0 = Inr None \<Longrightarrow>
     get_category_links env = (Inr [], [FetchPage (config_base_url env) 0, LogError])"
  by (simp add: get_category_links_def)

text \<open>
  Claim C7. A failed fetch of the main page makes \<open>_get_category_links\<close> return no
  links, whatever the environment. When \<open>_get_category_links\<close> returns no links, for
  that or any other reason, then in every state of the run, under any schedule: the
  product queue is empty and nothing was ever put on it, there is no worker thread and
  none was started, the writer thread was not started and the database has seen no
  insert, and the only thing that happens is the teardown, which closes the session and
  logs the time.
\<close>

theorem no_categories_abort:
  assumes "s = run env sched (run_scraping_start env)"
  shows
    "(scraper_fetch_page env (config_base_url env) 0 = Inr None \<longrightarrow>
        fst (get_category_links env) = Inr []) \<and>
     (scraper_fetch_page env (config_base_url env) 0 = Inr None \<or>
      fst (get_category_links env) = Inr [] \<longrightarrow>
        queue (product_url_queue s) = [] \<and> unfinished_tasks (product_url_queue s) = 0 \<and>
        queue (data_to_write_queue s) = [] \<and>
        (\<forall>x. PutProduct x \<notin> set (events s)) \<and>
        workers s = [] \<and> (\<forall>i. StartWorker i \<notin> set (events s)) \<and>
        writer s = NotStarted \<and> StartWriter \<notin> set (events s) \<and>
        (\<forall>r. Executed r \<notin> set (db_log (db_manager s))) \<and>
        (\<forall>x. RecordDone x \<notin> set (events s)) \<and>
        (Orchestrator \<notin> set sched \<longrightarrow>
           orchestrator s = Teardown \<and>
           (\<exists>s'. step env Orchestrator s = Some s' \<and> orchestrator s' = Finished \<and>
              events s' = events s @ [CloseSession, TimingLog])) \<and>
        (Orchestrator \<in> set sched \<longrightarrow>
           orchestrator s = Finished \<and>
           events s = events (run_scraping_start env) @ [CloseSession, TimingLog]))"
proof (rule conjI; rule impI)
  assume "scraper_fetch_page env (config_base_url env) 0 = Inr None"
  then show "fst (get_category_links env) = Inr []"
    by (simp add: failed_main_page_no_links)
next
  assume "scraper_fetch_page env (config_base_url env) 0 = Inr None \<or>
      fst (get_category_links env) = Inr []"
  then have g: "fst (get_category_links env) = Inr []"
    by (auto simp: failed_main_page_no_links)
  from no_categories_aborted [OF g] obtain d ev where
    a: "run_scraping_start env = aborted d ev" and e: "list_all discovery_event ev"
    and d: "d = snd (create_products_table env new_database_manager)" by blast
  note q = discovery_events_quiet [OF e]
  from create_products_table_log [of env] d
  have l: "\<forall>r. Executed r \<notin> set (db_log d)" by auto
  have rd: "\<forall>x. RecordDone x \<notin> set ev"
    using e by (induction ev) (auto elim: discovery_event.elims)
  show "queue (product_url_queue s) = [] \<and> unfinished_tasks (product_url_queue s) = 0 \<and>
        queue (data_to_write_queue s) = [] \<and>
        (\<forall>x. PutProduct x \<notin> set (events s)) \<and>
        workers s = [] \<and> (\<forall>i. StartWorker i \<notin> set (events s)) \<and>
        writer s = NotStarted \<and> StartWriter \<notin> set (events s) \<and>
        (\<forall>r. Executed r \<notin> set (db_log (db_manager s))) \<and>
        (\<forall>x. RecordDone x \<notin> set (events s)) \<and>
        (Orchestrator \<notin> set sched \<longrightarrow>
           orchestrator s = Teardown \<and>
           (\<exists>s'. step env Orchestrator s = Some s' \<and> orchestrator s' = Finished \<and>
              events s' = events s @ [CloseSession, TimingLog])) \<and>
        (Orchestrator \<in> set sched \<longrightarrow>
           orchestrator s = Finished \<and>
           events s = events (run_scraping_start env) @ [CloseSession, TimingLog])"
  proof (cases "Orchestrator \<in> set sched")
    case True
    with assms a have "s = emit [CloseSession, TimingLog] ((aborted d ev)\<lparr>orchestrator := Finished\<rparr>)"
      by (simp add: run_aborted)
    with True a q l rd show ?thesis by (simp add: aborted_def new_queue_def)
  next
    case False
    with assms a have "s = aborted d ev" by (simp add: run_aborted)
    with False a q l rd show ?thesis
      by (simp add: aborted_def new_queue_def step_def orchestrator_step_def)
  qed
qed

lemma offline_facts:
  "scraper_fetch_page offline_env (config_base_url offline_env) 0 = Inr None"
  by code_simp

theorem no_categories_abort_witness:
  "scraper_fetch_page offline_env (config_base_url offline_env) 0 = Inr None \<and>
   fst (get_category_links offline_env) = Inr [] \<and>
   Orchestrator \<in> set [Worker 0, Writer, Orchestrator, Worker 1] \<and>
   Orchestrator \<notin> set [Worker 0, Writer] \<and>
   queue (product_url_queue (run offline_env [Worker 0, Writer, Orchestrator, Worker 1]
     (run_scraping_start offline_env))) = [] \<and>
   workers (run offline_env [Worker 0, Writer, Orchestrator, Worker 1]
     (run_scraping_start offline_env)) = [] \<and>
   writer (run offline_env [Worker 0, Writer, Orchestrator, Worker 1]
     (run_scraping_start offline_env)) = NotStarted \<and>
   orchestrator (run offline_env [Worker 0, Writer, Orchestrator, Worker 1]
     (run_scraping_start offline_env)) = Finished \<and>
   events (run offline_env [Worker 0, Writer, Orchestrator, Worker 1]
     (run_scraping_start offline_env)) =
     events (run_scraping_start offline_env) @ [CloseSession, TimingLog] \<and>
   orchestrator (run offline_env [Worker 0, Writer] (run_scraping_start offline_env)) = Teardown"
proof -
  note f = offline_facts
  have m: "Orchestrator \<in> set [Worker 0, Writer, Orchestrator, Worker 1]"
    "Orchestrator \<notin> set [Worker 0, Writer]" by simp_all
  from no_categories_abort [OF refl, of offline_env "[Worker 0, Writer, Orchestrator, Worker 1]"]
    no_categories_abort [OF refl, of offline_env "[Worker 0, Writer]"] f m
  show ?thesis by blast
qed

section \<open>The writer's transaction\<close>




























end
